theory Spec2Isabelle
  imports Main "HOL-Library.Word" "HOL-Library.AList" "HOL-Library.Multiset"
begin

unbundle bit_operations_syntax

section \<open>Data model\<close>

text \<open>
  Both modules (\<^verbatim>\<open>pyzsync.py\<close> and \<^verbatim>\<open>pyrsync2.py\<close>) work on byte streams. A byte is
  an element of a Python \<^verbatim>\<open>bytes\<close>/\<^verbatim>\<open>bytearray\<close>, i.e. an integer in 0..255; the
  checksums are computed on Python's unbounded integers, hence \<^typ>\<open>int\<close>.
  The block size is a natural number here (the source passes it to \<^verbatim>\<open>read\<close>; negative
  block sizes are outside the model), and a block size of 0 is kept, with the
  \<^verbatim>\<open>ZeroDivisionError\<close> it causes.
\<close>

type_synonym byte = "8 word"

datatype error = TypeError | ValueError | AttributeError | IndexError | ZeroDivisionError

text \<open>
  A stream object as the code uses it: \<^verbatim>\<open>read(n)\<close>, \<^verbatim>\<open>seek(p)\<close>, \<^verbatim>\<open>tell()\<close> and the
  attribute \<^verbatim>\<open>closed\<close>. The functions never close a stream themselves, so \<open>closed\<close> is
  whatever the caller's object reports; the object is duck-typed and keeps serving
  \<^verbatim>\<open>read\<close> whatever it reports.
\<close>

record stream =
  contents :: "byte list"
  pos :: nat
  closed :: bool

definition read_stream :: "nat \<Rightarrow> stream \<Rightarrow> byte list \<times> stream" where
  "read_stream n s =
     (let d = take n (drop (pos s) (contents s)) in (d, s\<lparr>pos := pos s + length d\<rparr>))"

definition seek :: "nat \<Rightarrow> stream \<Rightarrow> stream" where
  "seek p s = s\<lparr>pos := p\<rparr>"

definition tell :: "stream \<Rightarrow> nat" where
  "tell s = pos s"

section \<open>Rolling checksum (both modules, identical text)\<close>

text \<open>
  \<^verbatim>\<open>weakchecksum(data)\<close>: the loop \<^verbatim>\<open>for i in range(l)\<close> over the accumulators
  \<open>(a, b)\<close>, then \<^verbatim>\<open>(b << 16) | a, a, b\<close>.
\<close>

definition weak_step :: "byte list \<Rightarrow> nat \<Rightarrow> nat \<Rightarrow> int \<times> int \<Rightarrow> int \<times> int" where
  "weak_step data l i ab =
     (fst ab + uint (data ! i), snd ab + (int l - int i) * uint (data ! i))"

definition weakchecksum :: "byte list \<Rightarrow> int \<times> int \<times> int" where
  "weakchecksum data =
     (let l = length data;
          ab = fold (weak_step data l) [0..<l] (0, 0)
      in (push_bit 16 (snd ab) OR fst ab, fst ab, snd ab))"

text \<open>
  \<^verbatim>\<open>rollingchecksum(removed, new, a, b, blocksize)\<close>:
  \<^verbatim>\<open>a -= removed - new; b -= removed * blocksize - a\<close> (the second line reads the
  updated \<open>a\<close>).
\<close>

definition rollingchecksum :: "int \<Rightarrow> int \<Rightarrow> int \<Rightarrow> int \<Rightarrow> nat \<Rightarrow> int \<times> int \<times> int" where
  "rollingchecksum removed new a b blocksize =
     (let a' = a - (removed - new);
          b' = b - (removed * int blocksize - a')
      in (push_bit 16 b' OR a', a', b'))"

section \<open>Signature generator\<close>

text \<open>
  \<^verbatim>\<open>block_checksums\<close> (pyzsync) and \<^verbatim>\<open>blockchecksums\<close> (pyrsync2) have the same body:
  read \<open>blocksize\<close> bytes, and while the read is not empty yield the pair and read again.
  The strong hash \<^verbatim>\<open>hashlib.md5(...).digest()\<close> is library code, taken as the parameter
  \<open>md5\<close>. The generator is returned as the list of its items together with the stream
  it leaves behind.
\<close>

function block_checksums ::
  "(byte list \<Rightarrow> 'h) \<Rightarrow> stream \<Rightarrow> nat \<Rightarrow> (int \<times> 'h) list \<times> stream" where
  "block_checksums md5 instream blocksize =
     (case read_stream blocksize instream of
        (read, instream') \<Rightarrow>
          if read = [] then ([], instream')
          else (case block_checksums md5 instream' blocksize of
                  (rest, final) \<Rightarrow> ((fst (weakchecksum read), md5 read) # rest, final)))"
  by pat_completeness auto
termination
  by (relation "measure (\<lambda>(md5, s, n). length (contents s) - pos s)")
     (auto simp: read_stream_def Let_def)

declare block_checksums.simps [simp del]

definition blockchecksums ::
  "(byte list \<Rightarrow> 'h) \<Rightarrow> stream \<Rightarrow> nat \<Rightarrow> (int \<times> 'h) list \<times> stream" where
  "blockchecksums = block_checksums"

section \<open>The scan loop: shared state\<close>

text \<open>
  The three scanning functions (\<^verbatim>\<open>zsync_delta\<close>, \<^verbatim>\<open>zsyncdelta\<close>, \<^verbatim>\<open>rsyncdelta\<close>) keep the
  same local variables. \<open>datastream\<close> is \<open>None\<close> once the source has set it to \<^verbatim>\<open>None\<close>.
  \<open>sum_a\<close> and \<open>sum_b\<close> are the source's \<open>a\<close> and \<open>b\<close>. \<open>window\<close>, \<open>checksum\<close>, \<open>sum_a\<close>,
  \<open>sum_b\<close>, \<open>newbyte\<close> and \<open>tailsize\<close> are unbound in the source until first assigned; every
  path assigns them before it reads them (the first iteration runs with \<open>match\<close> true and
  a stream, and \<open>tailsize\<close> is only read once \<open>datastream\<close> is \<open>None\<close>).
\<close>

record scan =
  match :: bool
  datastream :: "stream option"
  window :: "byte list"
  checksum :: int
  sum_a :: int
  sum_b :: int
  newbyte :: int
  tailsize :: nat

text \<open>One pass through the body of \<^verbatim>\<open>while True\<close>, and the loop with a bound on passes.\<close>

datatype 'st step = Continue 'st | Break 'st | Raise error 'st

datatype 'st run = Returned 'st | Raised error 'st

fun iterate :: "('st \<Rightarrow> 'st step) \<Rightarrow> nat \<Rightarrow> 'st \<Rightarrow> 'st run option" where
  "iterate body 0 st = None"
| "iterate body (Suc fuel) st =
     (case body st of
        Continue st' \<Rightarrow> iterate body fuel st'
      | Break st' \<Rightarrow> Some (Returned st')
      | Raise e st' \<Rightarrow> Some (Raised e st'))"

section \<open>Blueprint scan (\<^verbatim>\<open>zsync_delta\<close> of pyzsync, \<^verbatim>\<open>zsyncdelta\<close> of pyrsync2)\<close>

text \<open>
  A bucket entry is the 2-tuple \<^verbatim>\<open>(block, strong)\<close> or, once matched, the 3-tuple
  \<^verbatim>\<open>(block, strong, local_offset)\<close>. \<^verbatim>\<open>remote_hashes\<close> is a dict, iterated by
  \<^verbatim>\<open>get_instructions\<close> in insertion order: an association list.
\<close>

datatype 'h entry = Pair2 nat 'h | Triple3 nat 'h int

type_synonym 'h hashes = "(int \<times> 'h entry list) list"

record 'h zscan = scan +
  remote_hashes :: "'h hashes"
  local_offset :: int

text \<open>
  \<^verbatim>\<open>for block, (weak, strong) in enumerate(remotesignatures)\<close>: append to the bucket of
  \<open>weak\<close>, or start one.
\<close>

definition add_signature :: "nat \<times> int \<times> 'h \<Rightarrow> 'h hashes \<times> nat \<Rightarrow> 'h hashes \<times> nat" where
  "add_signature item acc =
     (case item of (block, weak, strong) \<Rightarrow>
        (case map_of (fst acc) weak of
           Some bucket \<Rightarrow> (AList.update weak (bucket @ [Pair2 block strong]) (fst acc), snd acc + 1)
         | None \<Rightarrow> (fst acc @ [(weak, [Pair2 block strong])], snd acc + 1)))"

definition build_hashes :: "(int \<times> 'h) list \<Rightarrow> 'h hashes \<times> nat" where
  "build_hashes remotesignatures = fold add_signature (enumerate 0 remotesignatures) ([], 0)"

text \<open>
  \<^verbatim>\<open>for index,(remote_offset,remote_strong) in enumerate(remote_hashes[checksum])\<close>:
  unpacking a 3-tuple into two names raises \<^verbatim>\<open>ValueError\<close>; at the first equal strong
  hash the entry is replaced and the loop left. The result is the bucket and whether
  \<open>match = True\<close> was executed.
\<close>

fun scan_bucket :: "'h \<Rightarrow> int \<Rightarrow> 'h entry list \<Rightarrow> error + ('h entry list \<times> bool)" where
  "scan_bucket local_strong offset [] = Inr ([], False)"
| "scan_bucket local_strong offset (Pair2 remote_offset remote_strong # rest) =
     (if local_strong = remote_strong
      then Inr (Triple3 remote_offset local_strong offset # rest, True)
      else (case scan_bucket local_strong offset rest of
              Inl e \<Rightarrow> Inl e
            | Inr (rest', hit) \<Rightarrow> Inr (Pair2 remote_offset remote_strong # rest', hit)))"
| "scan_bucket local_strong offset (Triple3 remote_offset remote_strong found # rest) =
     Inl ValueError"

text \<open>Lines 33-39: refill the window when \<open>match\<close> holds and there is a stream.\<close>

definition zsync_reseed :: "nat \<Rightarrow> 'h zscan \<Rightarrow> 'h zscan" where
  "zsync_reseed blocksize st =
     (case datastream st of
        Some ds \<Rightarrow>
          if match st then
            (case read_stream blocksize ds of
               (d, ds') \<Rightarrow>
                 (case weakchecksum d of
                    (c, a, b) \<Rightarrow>
                      st\<lparr>datastream := Some ds', window := d,
                         local_offset := local_offset st + int blocksize,
                         checksum := c, sum_a := a, sum_b := b\<rparr>))
          else st
      | None \<Rightarrow> st)"

text \<open>
  Lines 57-68: the \<^verbatim>\<open>try\<close> block. \<^verbatim>\<open>ord\<close> of an empty read raises \<^verbatim>\<open>TypeError\<close>, whose
  handler computes \<^verbatim>\<open>datastream.tell() % blocksize\<close> (a \<^verbatim>\<open>ZeroDivisionError\<close> when
  \<open>blocksize\<close> is 0, which leaves the function).
\<close>

definition next_byte :: "nat \<Rightarrow> 'a scan_scheme \<Rightarrow> error + 'a scan_scheme" where
  "next_byte blocksize st =
     (case datastream st of
        Some ds \<Rightarrow>
          (case read_stream 1 ds of
             (d, ds') \<Rightarrow>
               (case d of
                  c # _ \<Rightarrow> Inr (st\<lparr>datastream := Some ds', newbyte := uint c,
                                 window := window st @ [c]\<rparr>)
                | [] \<Rightarrow>
                    if blocksize = 0 then Inl ZeroDivisionError
                    else Inr (st\<lparr>newbyte := 0, tailsize := tell ds' mod blocksize,
                                datastream := None\<rparr>)))
      | None \<Rightarrow> Inr st)"

text \<open>Lines 40-79: the body of the loop after the refill.\<close>

definition zsync_body :: "(byte list \<Rightarrow> 'h) \<Rightarrow> nat \<Rightarrow> 'h zscan \<Rightarrow> 'h zscan step" where
  "zsync_body md5 blocksize st0 =
     (let st = zsync_reseed blocksize st0 in
      case map_of (remote_hashes st) (checksum st) of
        Some bucket \<Rightarrow>
          (case scan_bucket (md5 (window st)) (local_offset st) bucket of
             Inl e \<Rightarrow> Raise e st
           | Inr (bucket', hit) \<Rightarrow>
               (let st' = st\<lparr>remote_hashes := AList.update (checksum st) bucket' (remote_hashes st),
                              match := (hit \<or> match st)\<rparr>
                in case datastream st' of
                     None \<Rightarrow> Raise AttributeError st'
                   | Some ds \<Rightarrow> if closed ds then Break st' else Continue st'))
      | None \<Rightarrow>
          (case next_byte blocksize (st\<lparr>match := False\<rparr>) of
             Inl e \<Rightarrow> Raise e st
           | Inr st' \<Rightarrow>
               if datastream st' = None \<and> length (window st') \<le> tailsize st' then Break st'
               else (case window st' of
                       [] \<Rightarrow> Raise IndexError st'
                     | oldbyte # rest \<Rightarrow>
                         (case rollingchecksum (uint oldbyte) (newbyte st') (sum_a st') (sum_b st')
                                 blocksize of
                            (c, a, b) \<Rightarrow>
                              Continue (st'\<lparr>window := rest,
                                          local_offset := local_offset st' + 1,
                                          checksum := c, sum_a := a, sum_b := b\<rparr>)))))"

definition zsync_init :: "stream \<Rightarrow> 'h hashes \<Rightarrow> nat \<Rightarrow> 'h zscan" where
  "zsync_init ds hashes blocksize =
     \<lparr>match = True, datastream = Some ds, window = [], checksum = 0, sum_a = 0, sum_b = 0,
      newbyte = 0, tailsize = 0, remote_hashes = hashes, local_offset = - int blocksize\<rparr>"

definition zsync_scan ::
  "(byte list \<Rightarrow> 'h) \<Rightarrow> nat \<Rightarrow> stream \<Rightarrow> (int \<times> 'h) list \<Rightarrow> nat \<Rightarrow> 'h zscan run option" where
  "zsync_scan md5 fuel ds remotesignatures blocksize =
     iterate (zsync_body md5 blocksize) fuel
       (zsync_init ds (fst (build_hashes remotesignatures)) blocksize)"

subsection \<open>\<^verbatim>\<open>get_instructions\<close>\<close>

text \<open>
  A slot of the blueprint array is \<^verbatim>\<open>None\<close>, an \<^verbatim>\<open>int\<close> (the local byte offset), the
  tuple of an unmatched block, or, after the merge, \<^verbatim>\<open>bytes\<close>. In pyzsync the tuple is
  \<^verbatim>\<open>(remote_block*blocksize, weak, strong)\<close>, in pyrsync2 it is \<^verbatim>\<open>(weak, strong)\<close>.
\<close>

datatype 'h slot = PNone | PInt int | PTuple3 int int 'h | PTuple2 int 'h | PBytes "byte list"

fun place_bucket ::
  "(nat \<Rightarrow> int \<Rightarrow> 'h \<Rightarrow> 'h slot) \<Rightarrow> int \<Rightarrow> 'h entry list \<Rightarrow> 'h slot list \<times> nat list
    \<Rightarrow> error + ('h slot list \<times> nat list)" where
  "place_bucket tup weak [] acc = Inr acc"
| "place_bucket tup weak (Pair2 remote_block strong # rest) acc =
     (if remote_block < length (fst acc)
      then place_bucket tup weak rest
             ((fst acc)[remote_block := tup remote_block weak strong], snd acc @ [remote_block])
      else Inl IndexError)"
| "place_bucket tup weak (Triple3 remote_block strong local_block # rest) acc =
     (if remote_block < length (fst acc)
      then place_bucket tup weak rest ((fst acc)[remote_block := PInt local_block], snd acc)
      else Inl IndexError)"

fun place_all ::
  "(nat \<Rightarrow> int \<Rightarrow> 'h \<Rightarrow> 'h slot) \<Rightarrow> 'h hashes \<Rightarrow> 'h slot list \<times> nat list
    \<Rightarrow> error + ('h slot list \<times> nat list)" where
  "place_all tup [] acc = Inr acc"
| "place_all tup ((weak, bucket) # rest) acc =
     (case place_bucket tup weak bucket acc of
        Inl e \<Rightarrow> Inl e
      | Inr acc' \<Rightarrow> place_all tup rest acc')"

definition get_instructions ::
  "'h hashes \<Rightarrow> nat \<Rightarrow> nat \<Rightarrow> error + ('h slot list \<times> nat list)" where
  "get_instructions hashes blocksize num_blocks =
     place_all (\<lambda>remote_block weak strong. PTuple3 (int remote_block * int blocksize) weak strong)
       hashes (replicate num_blocks PNone, [])"

definition get_instructions2 ::
  "'h hashes \<Rightarrow> nat \<Rightarrow> nat \<Rightarrow> error + ('h slot list \<times> nat list)" where
  "get_instructions2 hashes blocksize num_blocks =
     place_all (\<lambda>remote_block weak strong. PTuple2 weak strong)
       hashes (replicate num_blocks PNone, [])"

text \<open>
  The whole function: \<open>None\<close> when the loop has not ended within \<open>fuel\<close> passes, the
  exception when one leaves the function, else the pair \<^verbatim>\<open>(instructions, to_request)\<close>.
\<close>

definition zsync_delta ::
  "(byte list \<Rightarrow> 'h) \<Rightarrow> nat \<Rightarrow> stream \<Rightarrow> (int \<times> 'h) list \<Rightarrow> nat
    \<Rightarrow> (error + ('h slot list \<times> nat list)) option" where
  "zsync_delta md5 fuel ds remotesignatures blocksize =
     (case zsync_scan md5 fuel ds remotesignatures blocksize of
        None \<Rightarrow> None
      | Some (Raised e st) \<Rightarrow> Some (Inl e)
      | Some (Returned st) \<Rightarrow>
          Some (get_instructions (remote_hashes st) blocksize
                  (snd (build_hashes remotesignatures))))"

definition zsyncdelta ::
  "(byte list \<Rightarrow> 'h) \<Rightarrow> nat \<Rightarrow> stream \<Rightarrow> (int \<times> 'h) list \<Rightarrow> nat
    \<Rightarrow> (error + ('h slot list \<times> nat list)) option" where
  "zsyncdelta md5 fuel ds remotesignatures blocksize =
     (case zsync_scan md5 fuel ds remotesignatures blocksize of
        None \<Rightarrow> None
      | Some (Raised e st) \<Rightarrow> Some (Inl e)
      | Some (Returned st) \<Rightarrow>
          Some (get_instructions2 (remote_hashes st) blocksize
                  (snd (build_hashes remotesignatures))))"

subsection \<open>\<^verbatim>\<open>get_blocks\<close>, \<^verbatim>\<open>merge_instructions_blocks\<close> and \<^verbatim>\<open>patchstream\<close> of pyzsync\<close>

fun get_blocks :: "stream \<Rightarrow> nat list \<Rightarrow> nat \<Rightarrow> (nat \<times> byte list) list \<times> stream" where
  "get_blocks ds [] blocksize = ([], ds)"
| "get_blocks ds (block # requests) blocksize =
     (case read_stream blocksize (seek (block * blocksize) ds) of
        (content, ds') \<Rightarrow>
          (case get_blocks ds' requests blocksize of
             (rest, final) \<Rightarrow> ((block, content) # rest, final)))"

text \<open>
  \<^verbatim>\<open>instructions[block][0]\<close>: an index out of range raises \<^verbatim>\<open>IndexError\<close>, \<^verbatim>\<open>None\<close> and
  \<^verbatim>\<open>int\<close> slots are not subscriptable (\<^verbatim>\<open>TypeError\<close>), a tuple gives its first
  component and \<^verbatim>\<open>bytes\<close> its first byte.
\<close>

definition slot_first :: "'h slot \<Rightarrow> error + int" where
  "slot_first v =
     (case v of
        PNone \<Rightarrow> Inl TypeError
      | PInt n \<Rightarrow> Inl TypeError
      | PTuple3 offset weak strong \<Rightarrow> Inr offset
      | PTuple2 weak strong \<Rightarrow> Inr weak
      | PBytes content \<Rightarrow> (case content of [] \<Rightarrow> Inl IndexError | c # _ \<Rightarrow> Inr (uint c)))"

fun merge_instructions_blocks ::
  "'h slot list \<Rightarrow> (nat \<times> byte list) list \<Rightarrow> nat \<Rightarrow> error + 'h slot list" where
  "merge_instructions_blocks instructions [] blocksize = Inr instructions"
| "merge_instructions_blocks instructions ((block, content) # blocks) blocksize =
     (if block < length instructions then
        (case slot_first (instructions ! block) of
           Inl e \<Rightarrow> Inl e
         | Inr first \<Rightarrow>
             merge_instructions_blocks
               (if first = int block * int blocksize then instructions[block := PBytes content]
                else instructions)
               blocks blocksize)
      else Inl IndexError)"

text \<open>
  \<^verbatim>\<open>patchstream\<close> of pyzsync seeks to the element itself. The result is the input stream
  and the bytes written to \<open>outstream\<close>, both as left behind, and the exception if one
  was raised (\<^verbatim>\<open>write\<close> of \<^verbatim>\<open>None\<close>, of a tuple, or of an \<^verbatim>\<open>int\<close> when \<open>blocksize\<close> is 0,
  is a \<^verbatim>\<open>TypeError\<close>; a negative seek a \<^verbatim>\<open>ValueError\<close>).
\<close>

fun patchstream ::
  "stream \<Rightarrow> byte list \<Rightarrow> 'h slot list \<Rightarrow> nat \<Rightarrow> stream \<times> byte list \<times> error option" where
  "patchstream instream outstream [] blocksize = (instream, outstream, None)"
| "patchstream instream outstream (element # delta) blocksize =
     (case element of
        PInt n \<Rightarrow>
          if blocksize = 0 then (instream, outstream, Some TypeError)
          else if n < 0 then (instream, outstream, Some ValueError)
          else (case read_stream blocksize (seek (nat n) instream) of
                  (d, instream') \<Rightarrow> patchstream instream' (outstream @ d) delta blocksize)
      | PBytes d \<Rightarrow> patchstream instream (outstream @ d) delta blocksize
      | _ \<Rightarrow> (instream, outstream, Some TypeError))"

section \<open>Streaming delta (\<^verbatim>\<open>rsyncdelta\<close> of pyrsync2)\<close>

text \<open>
  The generator yields \<^verbatim>\<open>bytes\<close> (a literal run) or an \<^verbatim>\<open>int\<close> (a baseline block
  index). \<open>yielded\<close> collects what has been yielded so far, in order.
  The local \<^verbatim>\<open>matchblock\<close> is assigned right before it is yielded and read nowhere else,
  so it is the argument of \<open>rsync_matched\<close> rather than a field of the state.
\<close>

datatype item = Literal "byte list" | BlockRef nat

record rscan = scan +
  window_offset :: nat
  current_block :: "byte list"
  yielded :: "item list"

text \<open>
  The dict comprehension \<^verbatim>\<open>{weak: (index, strong) for index, (weak, strong) in
  enumerate(remotesignatures)}\<close>: a later block replaces an earlier one with the same
  weak checksum.
\<close>

definition signature_dict :: "(int \<times> 'h) list \<Rightarrow> (int \<rightharpoonup> nat \<times> 'h)" where
  "signature_dict remotesignatures =
     fold (\<lambda>item m. case item of (index, weak, strong) \<Rightarrow> m(weak \<mapsto> (index, strong)))
       (enumerate 0 remotesignatures) Map.empty"

definition rsync_reseed :: "nat \<Rightarrow> rscan \<Rightarrow> rscan" where
  "rsync_reseed blocksize st =
     (case datastream st of
        Some ds \<Rightarrow>
          if match st then
            (case read_stream blocksize ds of
               (d, ds') \<Rightarrow>
                 (case weakchecksum d of
                    (c, a, b) \<Rightarrow>
                      st\<lparr>datastream := Some ds', window := d, window_offset := 0,
                         checksum := c, sum_a := a, sum_b := b\<rparr>))
          else st
      | None \<Rightarrow> st)"

text \<open>\<^verbatim>\<open>if len(current_block) > 0: yield bytes(current_block)\<close>\<close>

definition flush :: "rscan \<Rightarrow> item list" where
  "flush st = yielded st @ (if current_block st \<noteq> [] then [Literal (current_block st)] else [])"

text \<open>Lines 210-222: the branch of a confirmed match.\<close>

definition rsync_matched :: "nat \<Rightarrow> rscan \<Rightarrow> rscan step" where
  "rsync_matched matchblock st =
     (let st1 = st\<lparr>match := True, yielded := flush st @ [BlockRef matchblock],
                  current_block := []\<rparr>
      in case datastream st1 of
           None \<Rightarrow> Raise AttributeError st1
         | Some ds \<Rightarrow> if closed ds then Break st1 else Continue st1)"

text \<open>Lines 225-263: the \<^verbatim>\<open>else\<close> branch.\<close>

definition rsync_shift :: "nat \<Rightarrow> nat \<Rightarrow> rscan \<Rightarrow> rscan step" where
  "rsync_shift blocksize max_buffer st =
     (case next_byte blocksize (st\<lparr>match := False\<rparr>) of
        Inl e \<Rightarrow> Raise e st
      | Inr st1 \<Rightarrow>
          if datastream st1 = None
             \<and> int (length (window st1)) - int (window_offset st1) \<le> int (tailsize st1)
          then Break (st1\<lparr>yielded := flush st1,
                         current_block := drop (window_offset st1) (window st1)\<rparr>)
          else if window_offset st1 < length (window st1) then
            (let oldbyte = window st1 ! window_offset st1 in
             case rollingchecksum (uint oldbyte) (newbyte st1) (sum_a st1) (sum_b st1) blocksize of
               (c, a, b) \<Rightarrow>
                 (let st2 = st1\<lparr>window_offset := window_offset st1 + 1,
                                checksum := c, sum_a := a, sum_b := b\<rparr>;
                      st3 = (if max_buffer \<le> length (current_block st2)
                             then st2\<lparr>yielded := yielded st2 @ [Literal (current_block st2)],
                                     current_block := []\<rparr>
                             else st2)
                  in Continue (st3\<lparr>current_block := current_block st3 @ [oldbyte]\<rparr>)))
          else Raise IndexError st1)"

definition rsync_body ::
  "(byte list \<Rightarrow> 'h) \<Rightarrow> (int \<rightharpoonup> nat \<times> 'h) \<Rightarrow> nat \<Rightarrow> nat \<Rightarrow> rscan \<Rightarrow> rscan step" where
  "rsync_body md5 signatures blocksize max_buffer st0 =
     (let st = rsync_reseed blocksize st0 in
      case signatures (checksum st) of
        Some (index, strong) \<Rightarrow>
          if strong = md5 (drop (window_offset st) (window st))
          then rsync_matched index st
          else rsync_shift blocksize max_buffer st
      | None \<Rightarrow> rsync_shift blocksize max_buffer st)"

definition rsync_init :: "stream \<Rightarrow> rscan" where
  "rsync_init ds =
     \<lparr>match = True, datastream = Some ds, window = [], checksum = 0, sum_a = 0, sum_b = 0,
      newbyte = 0, tailsize = 0, window_offset = 0, current_block = [], yielded = []\<rparr>"

definition rsync_scan ::
  "(byte list \<Rightarrow> 'h) \<Rightarrow> nat \<Rightarrow> stream \<Rightarrow> (int \<times> 'h) list \<Rightarrow> nat \<Rightarrow> nat \<Rightarrow> rscan run option" where
  "rsync_scan md5 fuel ds remotesignatures blocksize max_buffer =
     iterate (rsync_body md5 (signature_dict remotesignatures) blocksize max_buffer) fuel
       (rsync_init ds)"

text \<open>
  The generator as a whole: \<open>None\<close> when the loop has not ended within \<open>fuel\<close> passes;
  else the items yielded, and the exception if the generator ended by raising one
  (the items before it have been handed to the consumer).
\<close>

definition rsyncdelta ::
  "(byte list \<Rightarrow> 'h) \<Rightarrow> nat \<Rightarrow> stream \<Rightarrow> (int \<times> 'h) list \<Rightarrow> nat \<Rightarrow> nat
    \<Rightarrow> (item list \<times> error option) option" where
  "rsyncdelta md5 fuel ds remotesignatures blocksize max_buffer =
     (case rsync_scan md5 fuel ds remotesignatures blocksize max_buffer of
        None \<Rightarrow> None
      | Some (Raised e st) \<Rightarrow> Some (yielded st, Some e)
      | Some (Returned st) \<Rightarrow> Some (flush st, None))"

text \<open>
  \<^verbatim>\<open>patchstream\<close> of pyrsync2 (here \<open>patchstream2\<close>) seeks to \<^verbatim>\<open>element * blocksize\<close>.
  It consumes the generator item by item, so an exception of the generator reaches the
  caller after the items before it have been written.
\<close>

fun patch_items ::
  "stream \<Rightarrow> byte list \<Rightarrow> item list \<Rightarrow> nat \<Rightarrow> stream \<times> byte list \<times> error option" where
  "patch_items instream outstream [] blocksize = (instream, outstream, None)"
| "patch_items instream outstream (element # delta) blocksize =
     (case element of
        BlockRef n \<Rightarrow>
          if blocksize = 0 then (instream, outstream, Some TypeError)
          else (case read_stream blocksize (seek (n * blocksize) instream) of
                  (d, instream') \<Rightarrow> patch_items instream' (outstream @ d) delta blocksize)
      | Literal d \<Rightarrow> patch_items instream (outstream @ d) delta blocksize)"

definition patchstream2 ::
  "stream \<Rightarrow> byte list \<Rightarrow> item list \<times> error option \<Rightarrow> nat
    \<Rightarrow> stream \<times> byte list \<times> error option" where
  "patchstream2 instream outstream delta blocksize =
     (case patch_items instream outstream (fst delta) blocksize of
        (instream', outstream', Some e) \<Rightarrow> (instream', outstream', Some e)
      | (instream', outstream', None) \<Rightarrow> (instream', outstream', snd delta))"

section \<open>Notions used to state the properties\<close>

text \<open>
  The baseline block an entry stands for, whether it carries a local offset, and the
  entries of the table in the order in which \<^verbatim>\<open>get_instructions\<close> visits them.
\<close>

fun entry_block :: "'h entry \<Rightarrow> nat" where
  "entry_block (Pair2 block strong) = block"
| "entry_block (Triple3 block strong found) = block"

fun is_found :: "'h entry \<Rightarrow> bool" where
  "is_found (Pair2 block strong) = False"
| "is_found (Triple3 block strong found) = True"

definition entries :: "'h hashes \<Rightarrow> (int \<times> 'h entry) list" where
  "entries hashes = concat (map (\<lambda>(weak, bucket). map (Pair weak) bucket) hashes)"

definition table_blocks :: "'h hashes \<Rightarrow> nat list" where
  "table_blocks hashes = map (entry_block \<circ> snd) (entries hashes)"

fun entry_strong :: "'h entry \<Rightarrow> 'h" where
  "entry_strong (Pair2 block strong) = strong"
| "entry_strong (Triple3 block strong found) = strong"

text \<open>The slot that \<^verbatim>\<open>get_instructions\<close> writes for one entry.\<close>

fun slot_of :: "(nat \<Rightarrow> int \<Rightarrow> 'h \<Rightarrow> 'h slot) \<Rightarrow> int \<times> 'h entry \<Rightarrow> 'h slot" where
  "slot_of tup (weak, Pair2 block strong) = tup block weak strong"
| "slot_of tup (weak, Triple3 block strong found) = PInt found"

text \<open>
  What a scan started on the stream \<open>ds0\<close> knows about its stream: while there is one, it
  is \<open>ds0\<close> read further, and once it is dropped \<open>tailsize\<close> is the position at which
  the stream was exhausted, modulo the block size.
\<close>

definition exhausted_at :: "stream \<Rightarrow> nat" where
  "exhausted_at ds0 = max (pos ds0) (length (contents ds0))"

definition follows :: "stream \<Rightarrow> nat \<Rightarrow> 'a scan_scheme \<Rightarrow> bool" where
  "follows ds0 bs st =
     (case datastream st of
        Some d \<Rightarrow> contents d = contents ds0 \<and> closed d = closed ds0
                 \<and> pos ds0 \<le> pos d \<and> pos d \<le> exhausted_at ds0
      | None \<Rightarrow> tailsize st = exhausted_at ds0 mod bs)"

text \<open>
  What the blueprint scan started on the stream \<open>ds0\<close> keeps true of its window while
  it has a stream: the window holds the (at most \<open>bs\<close>) bytes that start
  \<open>local_offset\<close> bytes after the position at which the scan started, and the stream has
  been read up to the end of the window (or is exhausted, with the window past the end).
\<close>

definition tracks :: "stream \<Rightarrow> nat \<Rightarrow> 'h zscan \<Rightarrow> bool" where
  "tracks ds0 bs st =
     (case datastream st of
        None \<Rightarrow> True
      | Some d \<Rightarrow>
          0 \<le> local_offset st \<and> contents d = contents ds0
          \<and> window st = take bs (drop (pos ds0 + nat (local_offset st)) (contents ds0))
          \<and> (pos d = pos ds0 + nat (local_offset st) + length (window st)
             \<or> (length (contents ds0) \<le> pos d
                \<and> length (contents ds0) \<le> pos ds0 + nat (local_offset st))))"

text \<open>
  An entry of the table of a scan of \<open>ds0\<close> against the signatures \<open>sigs\<close> is in place:
  it stands for a block of \<open>sigs\<close> and carries the weak and strong value of that block,
  and a local offset it carries is not negative and counts, from the position at which
  the scan started, to bytes whose strong hash is the one of the block.
\<close>

definition placed ::
  "(byte list \<Rightarrow> 'h) \<Rightarrow> stream \<Rightarrow> nat \<Rightarrow> (int \<times> 'h) list \<Rightarrow> int \<times> 'h entry \<Rightarrow> bool" where
  "placed md5 ds0 bs sigs we =
     (entry_block (snd we) < length sigs
      \<and> sigs ! entry_block (snd we) = (fst we, entry_strong (snd we))
      \<and> (case snd we of
           Pair2 block strong \<Rightarrow> True
         | Triple3 block strong found \<Rightarrow>
             0 \<le> found
             \<and> strong = md5 (take bs (drop (pos ds0 + nat found) (contents ds0)))))"

text \<open>
  The bytes an item sequence stands for when block references are read from a baseline
  with contents \<open>B\<close>, and what the streaming delta has accounted for so far: the items
  yielded and the literal run being collected.
\<close>

fun expand :: "byte list \<Rightarrow> nat \<Rightarrow> item list \<Rightarrow> byte list" where
  "expand B bs [] = []"
| "expand B bs (Literal d # items) = d @ expand B bs items"
| "expand B bs (BlockRef n # items) = take bs (drop (n * bs) B) @ expand B bs items"

fun is_ref :: "item \<Rightarrow> bool" where
  "is_ref (BlockRef n) = True"
| "is_ref (Literal d) = False"

text \<open>
  The runs of at most \<open>bs\<close> consecutive bytes of \<open>C\<close>: the blocks of a stream with
  these contents and every window a scan of it can hold.
\<close>

definition segments :: "byte list \<Rightarrow> nat \<Rightarrow> byte list set" where
  "segments C bs = (\<lambda>(p, n). take n (drop p C)) ` ({0..length C} \<times> {0..bs})"

definition emitted :: "byte list \<Rightarrow> nat \<Rightarrow> rscan \<Rightarrow> byte list" where
  "emitted B bs st = expand B bs (yielded st) @ current_block st"

text \<open>
  The state of the streaming delta after the refill at the head of the loop, scanning
  a candidate with contents \<open>C\<close>: what has been accounted for, followed by the live part
  of the window, is the candidate up to the stream position (all of it once the stream
  is dropped). \<open>budget\<close> bounds the passes the loop can still make.
\<close>

definition covers :: "byte list \<Rightarrow> byte list \<Rightarrow> nat \<Rightarrow> rscan \<Rightarrow> bool" where
  "covers B C bs st =
     (window_offset st \<le> length (window st) \<and>
      (case datastream st of
         Some d \<Rightarrow> contents d = C \<and> \<not> closed d
                  \<and> emitted B bs st @ drop (window_offset st) (window st) = take (pos d) C
       | None \<Rightarrow> emitted B bs st @ drop (window_offset st) (window st) = C))"

definition budget :: "rscan \<Rightarrow> nat" where
  "budget st =
     (case datastream st of
        Some d \<Rightarrow> 2 * (length (contents d) - pos d)
                   + (length (window st) - window_offset st) + 2
      | None \<Rightarrow> (length (window st) - window_offset st) + 1)"

text \<open>
  What a finished run of the streaming delta has to satisfy for the patch to rebuild
  the candidate \<open>C\<close>; and the states in which every block so far has been matched at its
  own place.
\<close>

definition accounts_for :: "byte list \<Rightarrow> byte list \<Rightarrow> nat \<Rightarrow> rscan run \<Rightarrow> bool" where
  "accounts_for B C bs r =
     (case r of
        Returned st \<Rightarrow> expand B bs (flush st) = C
      | Raised e st \<Rightarrow> e = AttributeError \<and> expand B bs (yielded st) = C)"

definition aligned :: "byte list \<Rightarrow> nat \<Rightarrow> rscan \<Rightarrow> bool" where
  "aligned B bs st =
     (match st \<and> current_block st = [] \<and> list_all is_ref (yielded st)
      \<and> (\<exists>d i. datastream st = Some d \<and> contents d = B \<and> \<not> closed d
             \<and> pos d = min (i * bs) (length B)))"

section \<open>Properties of the rolling checksum\<close>

lemma fold_weak_step:
  "fold (weak_step data l) [0..<k] ab =
     (fst ab + (\<Sum>i<k. uint (data ! i)), snd ab + (\<Sum>i<k. (int l - int i) * uint (data ! i)))"
  by (induction k) (simp_all add: weak_step_def algebra_simps)

lemma weakchecksum_sums:
  "weakchecksum data =
     (push_bit 16 (\<Sum>i<length data. (int (length data) - int i) * uint (data ! i))
        OR (\<Sum>i<length data. uint (data ! i)),
      \<Sum>i<length data. uint (data ! i),
      \<Sum>i<length data. (int (length data) - int i) * uint (data ! i))"
  by (simp add: weakchecksum_def Let_def fold_weak_step)

text \<open>
  Claim C2. For a window \<open>w\<close> of length exactly \<open>blocksize\<close> (hence not empty) whose
  initial checksum is \<open>(c, a, b)\<close>, and any byte \<open>n\<close>, sliding with
  \<open>rollingchecksum w[0] n a b blocksize\<close> gives exactly the initial checksum of the
  window \<open>w[1:] + [n]\<close>: the composite value and both sums.
\<close>

theorem rollingchecksum_slides:
  assumes "length w = blocksize" and "w \<noteq> []" and "weakchecksum w = (c, a, b)"
  shows "rollingchecksum (uint (w ! 0)) (uint n) a b blocksize = weakchecksum (tl w @ [n])"
proof -
  from assms(2) obtain x xs where w: "w = x # xs" by (cases w) auto
  let ?m = "length xs"
  have a1: "(\<Sum>i<Suc ?m. uint ((x # xs) ! i)) = uint x + (\<Sum>i<?m. uint (xs ! i))"
    by (simp add: sum.lessThan_Suc_shift del: sum.lessThan_Suc)
  have b1: "(\<Sum>i<Suc ?m. (int (Suc ?m) - int i) * uint ((x # xs) ! i))
      = (int ?m + 1) * uint x + (\<Sum>i<?m. (int ?m - int i) * uint (xs ! i))"
    by (simp add: sum.lessThan_Suc_shift algebra_simps del: sum.lessThan_Suc)
  have a: "a = uint x + (\<Sum>i<?m. uint (xs ! i))"
    using assms(3) a1 by (simp add: w weakchecksum_sums del: sum.lessThan_Suc)
  have b: "b = (int ?m + 1) * uint x + (\<Sum>i<?m. (int ?m - int i) * uint (xs ! i))"
    using assms(3) b1 by (simp add: w weakchecksum_sums del: sum.lessThan_Suc)
  have a2: "(\<Sum>i<Suc ?m. uint ((xs @ [n]) ! i)) = (\<Sum>i<?m. uint (xs ! i)) + uint n"
    by (simp add: nth_append)
  have b2: "(\<Sum>i<Suc ?m. (int (Suc ?m) - int i) * uint ((xs @ [n]) ! i))
      = (\<Sum>i<?m. (int ?m - int i) * uint (xs ! i)) + (\<Sum>i<?m. uint (xs ! i)) + uint n"
  proof -
    have "(\<Sum>i<?m. (int (Suc ?m) - int i) * uint ((xs @ [n]) ! i))
        = (\<Sum>i<?m. (int ?m - int i) * uint (xs ! i) + uint (xs ! i))"
      by (rule sum.cong) (simp_all add: nth_append algebra_simps)
    then show ?thesis by (simp add: sum.distrib)
  qed
  have bs: "blocksize = Suc ?m" using assms(1) by (simp add: w)
  have a': "a - (uint x - uint n) = (\<Sum>i<Suc ?m. uint ((xs @ [n]) ! i))"
    unfolding a2 a by simp
  have b': "b - (uint x * int (Suc ?m) - (\<Sum>i<Suc ?m. uint ((xs @ [n]) ! i)))
      = (\<Sum>i<Suc ?m. (int (Suc ?m) - int i) * uint ((xs @ [n]) ! i))"
    unfolding a2 b2 b by (simp add: algebra_simps)
  have "rollingchecksum (uint x) (uint n) a b (Suc ?m) = weakchecksum (xs @ [n])"
    unfolding rollingchecksum_def Let_def a' b'
    by (simp add: weakchecksum_sums del: sum.lessThan_Suc)
  then show ?thesis by (simp add: w bs)
qed

theorem rollingchecksum_slides_witness:
  "length [1, 0, 1 :: byte] = 3 \<and> [1, 0, 1 :: byte] \<noteq> []
   \<and> weakchecksum [1, 0, 1] = (262146, 2, 4)
   \<and> rollingchecksum (uint ([1, 0, 1 :: byte] ! 0)) (uint (7 :: byte)) 2 4 3
       = weakchecksum (tl [1, 0, 1] @ [7])
   \<and> weakchecksum (tl [1, 0, 1] @ [7]) = (589832, 8, 9)"
proof -
  have w: "weakchecksum [1, 0, 1] = (262146, 2, 4)" by code_simp
  have v: "weakchecksum (tl [1, 0, 1] @ [7]) = (589832, 8, 9)" by code_simp
  have "rollingchecksum (uint ([1, 0, 1 :: byte] ! 0)) (uint (7 :: byte)) 2 4 3
       = weakchecksum (tl [1, 0, 1] @ [7])"
    using rollingchecksum_slides [of "[1, 0, 1]" 3 262146 2 4 7] w by simp
  with w v show ?thesis by simp
qed

section \<open>Properties of the signature generator\<close>

lemma block_checksums_unfold:
  "block_checksums md5 s bs =
     (if pos s < length (contents s) \<and> 0 < bs
      then (case block_checksums md5 (s\<lparr>pos := min (pos s + bs) (length (contents s))\<rparr>) bs of
              (rest, final) \<Rightarrow>
                ((fst (weakchecksum (take bs (drop (pos s) (contents s)))),
                  md5 (take bs (drop (pos s) (contents s)))) # rest, final))
      else ([], s))"
proof (cases "pos s < length (contents s) \<and> 0 < bs")
  case True
  then have eq: "pos s + min (length (contents s) - pos s) bs
      = min (pos s + bs) (length (contents s))"
    by arith
  from True have ne: "take bs (drop (pos s) (contents s)) \<noteq> []" by simp
  show ?thesis
    using True ne
    by (subst block_checksums.simps) (simp add: read_stream_def Let_def eq)
next
  case False
  then have e: "take bs (drop (pos s) (contents s)) = []" by auto
  from False have m: "min (length (contents s) - pos s) bs = 0" by auto
  have "block_checksums md5 s bs = ([], s)"
    by (subst block_checksums.simps) (simp add: read_stream_def Let_def m e)
  then show ?thesis
    by (simp only: if_not_P [OF False])
qed

lemma block_checksums_at_end:
  "\<not> pos s < length (contents s) \<Longrightarrow> fst (block_checksums md5 s bs) = []"
  by (subst block_checksums_unfold) simp

lemma block_checksums_step:
  "pos s < length (contents s) \<Longrightarrow> 0 < bs \<Longrightarrow>
     fst (block_checksums md5 s bs) =
       (fst (weakchecksum (take bs (drop (pos s) (contents s)))),
        md5 (take bs (drop (pos s) (contents s))))
       # fst (block_checksums md5 (s\<lparr>pos := min (pos s + bs) (length (contents s))\<rparr>) bs)"
  by (subst block_checksums_unfold) (simp add: split_beta)

lemma block_checksums_length:
  "0 < bs \<Longrightarrow> length (fst (block_checksums md5 s bs))
      = (length (contents s) - pos s + bs - 1) div bs"
proof (induction "length (contents s) - pos s" arbitrary: s rule: less_induct)
  case less
  show ?case
  proof (cases "pos s < length (contents s)")
    case False
    then show ?thesis using less.prems
      by (simp add: block_checksums_at_end)
  next
    case True
    let ?s' = "s\<lparr>pos := min (pos s + bs) (length (contents s))\<rparr>"
    have IH: "length (fst (block_checksums md5 ?s' bs))
        = (length (contents ?s') - pos ?s' + bs - 1) div bs"
      by (rule less.hyps) (use True less.prems in auto)
    have ar: "Suc ((length (contents s) - min (pos s + bs) (length (contents s)) + bs - 1) div bs)
        = (length (contents s) - pos s + bs - 1) div bs"
    proof (cases "pos s + bs \<le> length (contents s)")
      case True
      then obtain k where k: "length (contents s) = pos s + bs + k"
        by (metis le_Suc_ex)
      have "(k + bs - 1 + bs) div bs = Suc ((k + bs - 1) div bs)"
        using less.prems by (simp only: div_add_self2)
      moreover have "pos s + bs + k - pos s + bs - 1 = k + bs - 1 + bs"
        using less.prems by arith
      moreover have "pos s + bs + k - min (pos s + bs) (pos s + bs + k) + bs - 1 = k + bs - 1"
        by simp
      ultimately show ?thesis by (simp only: k)
    next
      case False
      then have "length (contents s) - pos s + bs - 1 < 2 * bs"
        and "bs \<le> length (contents s) - pos s + bs - 1"
        using \<open>pos s < length (contents s)\<close> by auto
      then have "(length (contents s) - pos s + bs - 1) div bs = 1"
        using less.prems by (simp add: div_nat_eqI)
      then show ?thesis using False less.prems by (simp add: min_def)
    qed
    show ?thesis
      using IH ar by (simp add: block_checksums_step [OF True less.prems])
  qed
qed

lemma block_checksums_nth:
  "0 < bs \<Longrightarrow> i < length (fst (block_checksums md5 s bs)) \<Longrightarrow>
     fst (block_checksums md5 s bs) ! i
       = (fst (weakchecksum (take bs (drop (pos s + i * bs) (contents s)))),
          md5 (take bs (drop (pos s + i * bs) (contents s))))"
proof (induction i arbitrary: s)
  case 0
  then have lt: "pos s < length (contents s)"
    using block_checksums_at_end [of s md5 bs] by (cases "pos s < length (contents s)") auto
  show ?case using 0 by (simp add: block_checksums_step [OF lt])
next
  case (Suc i)
  let ?s' = "s\<lparr>pos := min (pos s + bs) (length (contents s))\<rparr>"
  from Suc.prems have lt: "pos s < length (contents s)"
    using block_checksums_at_end [of s md5 bs] by (cases "pos s < length (contents s)") auto
  note step = block_checksums_step [OF lt Suc.prems(1), of md5]
  from Suc.prems(2) have i: "i < length (fst (block_checksums md5 ?s' bs))"
    by (simp add: step)
  have full: "pos s + bs \<le> length (contents s)"
  proof (rule ccontr)
    assume "\<not> ?thesis"
    then have "\<not> pos ?s' < length (contents ?s')" by (simp add: min_def)
    then have "fst (block_checksums md5 ?s' bs) = []"
      by (rule block_checksums_at_end)
    with i show False by simp
  qed
  have "fst (block_checksums md5 s bs) ! Suc i = fst (block_checksums md5 ?s' bs) ! i"
    by (simp add: step)
  also have "\<dots> = (fst (weakchecksum (take bs (drop (pos ?s' + i * bs) (contents ?s')))),
          md5 (take bs (drop (pos ?s' + i * bs) (contents ?s'))))"
    by (rule Suc.IH [OF Suc.prems(1) i])
  finally show ?case using full by (simp add: min_def add_ac)
qed

lemma block_checksums_block_nonempty:
  assumes "0 < bs" and "i < length (fst (block_checksums md5 s bs))"
  shows "take bs (drop (pos s + i * bs) (contents s)) \<noteq> []"
proof -
  from assms have "Suc i \<le> (length (contents s) - pos s + bs - 1) div bs"
    by (simp add: block_checksums_length)
  then have "Suc i * bs \<le> length (contents s) - pos s + bs - 1"
    using assms(1) by (simp only: less_eq_div_iff_mult_less_eq)
  then have "i * bs < length (contents s) - pos s"
    using assms(1) by simp
  then show ?thesis using assms(1) by simp
qed


text \<open>
  Claim C8. For a positive block size the signature generator emits exactly one pair per
  consecutive block of \<open>blocksize\<close> bytes from the stream's position to its end, in
  block order: their number is the length of the remaining data divided by \<open>blocksize\<close>,
  rounded up, so a shorter final block is emitted too; entry \<open>i\<close> is the initial weak
  checksum and the strong hash of the (non-empty) bytes of block \<open>i\<close>. The generator
  of pyrsync2 is the same function.
\<close>

theorem block_checksums_blocks:
  assumes "0 < blocksize"
  shows "length (fst (block_checksums md5 s blocksize))
           = (length (contents s) - pos s + blocksize - 1) div blocksize
       \<and> (\<forall>i < length (fst (block_checksums md5 s blocksize)).
             take blocksize (drop (pos s + i * blocksize) (contents s)) \<noteq> []
           \<and> fst (block_checksums md5 s blocksize) ! i
               = (fst (weakchecksum (take blocksize (drop (pos s + i * blocksize) (contents s)))),
                  md5 (take blocksize (drop (pos s + i * blocksize) (contents s)))))
       \<and> blockchecksums md5 s blocksize = block_checksums md5 s blocksize"
proof (intro conjI allI impI)
  show "length (fst (block_checksums md5 s blocksize))
      = (length (contents s) - pos s + blocksize - 1) div blocksize"
    using assms by (rule block_checksums_length)
next
  fix i assume "i < length (fst (block_checksums md5 s blocksize))"
  then show "take blocksize (drop (pos s + i * blocksize) (contents s)) \<noteq> []"
    using assms by (rule block_checksums_block_nonempty [rotated])
next
  fix i assume "i < length (fst (block_checksums md5 s blocksize))"
  then show "fst (block_checksums md5 s blocksize) ! i
      = (fst (weakchecksum (take blocksize (drop (pos s + i * blocksize) (contents s)))),
         md5 (take blocksize (drop (pos s + i * blocksize) (contents s))))"
    using assms by (rule block_checksums_nth [rotated])
next
  show "blockchecksums md5 s blocksize = block_checksums md5 s blocksize"
    by (simp add: blockchecksums_def)
qed

theorem block_checksums_blocks_witness:
  "(0 :: nat) < 2
   \<and> fst (block_checksums id \<lparr>contents = [1, 2, 3], pos = 0, closed = False\<rparr> 2)
       = [(262147, [1, 2]), (196611, [3])]
   \<and> length (fst (block_checksums id \<lparr>contents = [1, 2, 3], pos = 0, closed = False\<rparr> 2))
       = (length [1, 2, 3 :: byte] - 0 + 2 - 1) div 2"
proof -
  have v: "fst (block_checksums id \<lparr>contents = [1, 2, 3], pos = 0, closed = False\<rparr> 2)
       = [(262147, [1, 2]), (196611, [3])]"
    by code_simp
  show ?thesis
    using block_checksums_blocks [of 2 id "\<lparr>contents = [1, 2, 3], pos = 0, closed = False\<rparr>"] v
    by simp
qed

section \<open>The bounded loop\<close>

lemma iterate_numeral:
  "iterate body (numeral k) st =
     (case body st of
        Continue st' \<Rightarrow> iterate body (pred_numeral k) st'
      | Break st' \<Rightarrow> Some (Returned st')
      | Raise e st' \<Rightarrow> Some (Raised e st'))"
  by (simp add: numeral_eq_Suc)

lemma iterate_one:
  "iterate body 1 st =
     (case body st of
        Continue st' \<Rightarrow> None
      | Break st' \<Rightarrow> Some (Returned st')
      | Raise e st' \<Rightarrow> Some (Raised e st'))"
  unfolding One_nat_def by (simp split: step.splits)

text \<open>More fuel never changes a result: the result of the loop is the result at any
  bound that is large enough.\<close>

lemma iterate_more_fuel:
  "iterate body n st = Some r \<Longrightarrow> n \<le> m \<Longrightarrow> iterate body m st = Some r"
proof (induction n arbitrary: st m)
  case 0
  then show ?case by simp
next
  case (Suc n)
  then obtain m' where m: "m = Suc m'" and le: "n \<le> m'"
    by (cases m) auto
  show ?case
  proof (cases "body st")
    case (Continue st')
    with Suc.prems have "iterate body n st' = Some r" by simp
    from Suc.IH [OF this le] show ?thesis by (simp add: m Continue)
  next
    case (Break st')
    with Suc.prems show ?thesis by (simp add: m)
  next
    case (Raise e st')
    with Suc.prems show ?thesis by (simp add: m)
  qed
qed

lemma iterate_fixed_point: "body st = Continue st \<Longrightarrow> iterate body n st = None"
  by (induction n) simp_all

lemma iterate_invariant:
  assumes "\<And>st st'. I st \<Longrightarrow> body st = Continue st' \<Longrightarrow> I st'"
    and "\<And>st st'. I st \<Longrightarrow> body st = Break st' \<Longrightarrow> Q st'"
    and "I st" and "iterate body fuel st = Some (Returned st')"
  shows "Q st'"
  using assms(3,4)
proof (induction fuel arbitrary: st)
  case 0
  then show ?case by simp
next
  case (Suc fuel)
  show ?case
  proof (cases "body st")
    case (Continue st1)
    with Suc.prems(2) have "iterate body fuel st1 = Some (Returned st')" by simp
    moreover have "I st1" using assms(1) Suc.prems(1) Continue by blast
    ultimately show ?thesis by (rule Suc.IH [rotated])
  next
    case (Break st1)
    with Suc.prems(2) have "st1 = st'" by simp
    with assms(2) Suc.prems(1) Break show ?thesis by blast
  next
    case (Raise e st1)
    with Suc.prems(2) show ?thesis by simp
  qed
qed

lemma iterate_result:
  assumes "\<And>st st'. I st \<Longrightarrow> body st = Continue st' \<Longrightarrow> I st'"
    and "\<And>st st'. I st \<Longrightarrow> body st = Break st' \<Longrightarrow> Q (Returned st')"
    and "\<And>st e st'. I st \<Longrightarrow> body st = Raise e st' \<Longrightarrow> Q (Raised e st')"
    and "I st" and "iterate body fuel st = Some r"
  shows "Q r"
  using assms(4,5)
proof (induction fuel arbitrary: st)
  case 0
  then show ?case by simp
next
  case (Suc fuel)
  show ?case
  proof (cases "body st")
    case (Continue st1)
    with Suc.prems(2) have "iterate body fuel st1 = Some r" by simp
    moreover have "I st1" using assms(1) Suc.prems(1) Continue by blast
    ultimately show ?thesis by (rule Suc.IH [rotated])
  next
    case (Break st1)
    with Suc.prems(2) have "r = Returned st1" by simp
    with assms(2) Suc.prems(1) Break show ?thesis by blast
  next
    case (Raise e st1)
    with Suc.prems(2) have "r = Raised e st1" by simp
    with assms(3) Suc.prems(1) Raise show ?thesis by blast
  qed
qed

text \<open>A loop whose passes use up a budget ends once the fuel exceeds the budget.\<close>

lemma iterate_total:
  assumes step: "\<And>st. I st \<Longrightarrow>
        (\<exists>st'. body st = Continue st' \<and> I st' \<and> m st' < m st)
      \<or> (\<exists>st'. body st = Break st' \<and> Q (Returned st'))
      \<or> (\<exists>e st'. body st = Raise e st' \<and> Q (Raised e st'))"
    and "I st" and "m st < fuel"
  shows "\<exists>r. iterate body fuel st = Some r \<and> Q r"
  using assms(2,3)
proof (induction fuel arbitrary: st)
  case 0
  then show ?case by simp
next
  case (Suc fuel)
  from step [OF Suc.prems(1)] show ?case
  proof (elim disjE exE conjE)
    fix st' assume b: "body st = Continue st'" and i: "I st'" and m: "m st' < m st"
    from m Suc.prems(2) have "m st' < fuel" by simp
    from Suc.IH [OF i this] show ?thesis by (simp add: b)
  next
    fix st' assume "body st = Break st'" and "Q (Returned st')"
    then show ?thesis by simp
  next
    fix e st' assume "body st = Raise e st'" and "Q (Raised e st')"
    then show ?thesis by simp
  qed
qed

section \<open>The blueprint scan on an empty signature table\<close>

lemma zsync_reseed_hashes [simp]: "remote_hashes (zsync_reseed bs st) = remote_hashes st"
  by (simp add: zsync_reseed_def split: option.splits prod.splits)

lemma zsync_reseed_no_stream [simp]: "datastream st = None \<Longrightarrow> zsync_reseed bs st = st"
  by (simp add: zsync_reseed_def)

lemma zsync_reseed_no_match [simp]: "\<not> match st \<Longrightarrow> zsync_reseed bs st = st"
  by (simp add: zsync_reseed_def split: option.splits)

lemma empty_scan_drained:
  "remote_hashes st = [] \<Longrightarrow> datastream st = None \<Longrightarrow> length (window st) < fuel \<Longrightarrow>
     \<exists>st'. iterate (zsync_body md5 bs) fuel st = Some (Returned st') \<and> remote_hashes st' = []"
proof (induction fuel arbitrary: st)
  case 0
  then show ?case by simp
next
  case (Suc fuel)
  show ?case
  proof (cases "length (window st) \<le> tailsize st")
    case True
    then show ?thesis using Suc.prems
      by (simp add: zsync_body_def next_byte_def)
  next
    case False
    then obtain oldbyte rest where w: "window st = oldbyte # rest"
      by (cases "window st") auto
    obtain c a b where r: "rollingchecksum (uint oldbyte) (newbyte st) (sum_a st) (sum_b st) bs
        = (c, a, b)"
      by (cases "rollingchecksum (uint oldbyte) (newbyte st) (sum_a st) (sum_b st) bs") auto
    let ?st' = "st\<lparr>match := False, window := rest, local_offset := local_offset st + 1,
      checksum := c, sum_a := a, sum_b := b\<rparr>"
    have body: "zsync_body md5 bs st = Continue ?st'"
      using False Suc.prems(1,2) w r by (simp add: zsync_body_def next_byte_def)
    have "\<exists>st'. iterate (zsync_body md5 bs) fuel ?st' = Some (Returned st')
        \<and> remote_hashes st' = []"
      using Suc.prems w by (intro Suc.IH) simp_all
    then show ?thesis by (simp add: body)
  qed
qed

lemma empty_scan_returns:
  assumes "remote_hashes st = []" and "0 < bs"
    and "datastream (zsync_reseed bs st) = Some ds"
    and "length (contents ds) - pos ds + length (window (zsync_reseed bs st)) + 1 < fuel"
  shows "\<exists>st'. iterate (zsync_body md5 bs) fuel st = Some (Returned st')
      \<and> remote_hashes st' = []"
  using assms
proof (induction fuel arbitrary: st ds)
  case 0
  then show ?case by simp
next
  case (Suc fuel)
  let ?st1 = "zsync_reseed bs st"
  have h: "map_of (remote_hashes ?st1) (checksum ?st1) = None"
    using Suc.prems(1) by simp
  show ?case
  proof (cases "pos ds < length (contents ds)")
    case True
    then obtain c where c: "take (Suc 0) (drop (pos ds) (contents ds)) = [c]"
      by (cases "drop (pos ds) (contents ds)") auto
    let ?ds' = "ds\<lparr>pos := Suc (pos ds)\<rparr>"
    obtain oldbyte rest where w: "window ?st1 @ [c] = oldbyte # rest"
      by (cases "window ?st1 @ [c]") auto
    obtain k a b where r: "rollingchecksum (uint oldbyte) (uint c) (sum_a ?st1) (sum_b ?st1) bs
        = (k, a, b)"
      by (cases "rollingchecksum (uint oldbyte) (uint c) (sum_a ?st1) (sum_b ?st1) bs") auto
    let ?st' = "?st1\<lparr>match := False, datastream := Some ?ds', newbyte := uint c,
      window := rest, local_offset := local_offset ?st1 + 1,
      checksum := k, sum_a := a, sum_b := b\<rparr>"
    have body: "zsync_body md5 bs st = Continue ?st'"
      using h Suc.prems(3) c w r
      by (simp add: zsync_body_def Let_def next_byte_def read_stream_def)
    have len: "length rest = length (window ?st1)"
      using arg_cong [OF w, of length] by simp
    have "\<exists>st'. iterate (zsync_body md5 bs) fuel ?st' = Some (Returned st')
        \<and> remote_hashes st' = []"
    proof (rule Suc.IH [where ds = ?ds'])
      show "remote_hashes ?st' = []" using Suc.prems(1) by simp
      show "0 < bs" by fact
      show "datastream (zsync_reseed bs ?st') = Some ?ds'" by simp
      show "length (contents ?ds') - pos ?ds' + length (window (zsync_reseed bs ?st')) + 1 < fuel"
        using Suc.prems(4) True len by simp
    qed
    then show ?thesis by (simp add: body)
  next
    case False
    then have e: "take (Suc 0) (drop (pos ds) (contents ds)) = []" by simp
    let ?st2 = "?st1\<lparr>match := False, newbyte := 0, tailsize := pos ds mod bs,
      datastream := None\<rparr>"
    show ?thesis
    proof (cases "length (window ?st1) \<le> pos ds mod bs")
      case True
      have "zsync_body md5 bs st = Break ?st2"
        using h Suc.prems(2,3) e True
        by (simp add: zsync_body_def Let_def next_byte_def read_stream_def tell_def)
      then show ?thesis using Suc.prems(1) by simp
    next
      case nb: False
      then obtain oldbyte rest where w: "window ?st1 = oldbyte # rest"
        by (cases "window ?st1") auto
      obtain k a b where r: "rollingchecksum (uint oldbyte) 0 (sum_a ?st1) (sum_b ?st1) bs
          = (k, a, b)"
        by (cases "rollingchecksum (uint oldbyte) 0 (sum_a ?st1) (sum_b ?st1) bs") auto
      let ?st' = "?st2\<lparr>window := rest, local_offset := local_offset ?st1 + 1,
        checksum := k, sum_a := a, sum_b := b\<rparr>"
      have body: "zsync_body md5 bs st = Continue ?st'"
        using h Suc.prems(2,3) e nb w r
        by (simp add: zsync_body_def Let_def next_byte_def read_stream_def tell_def)
      have "\<exists>st'. iterate (zsync_body md5 bs) fuel ?st' = Some (Returned st')
          \<and> remote_hashes st' = []"
        using Suc.prems(1,4) w by (intro empty_scan_drained) simp_all
      then show ?thesis by (simp add: body)
    qed
  qed
qed

lemma build_hashes_Nil [simp]: "build_hashes [] = ([], 0)"
  by (simp add: build_hashes_def enumerate_eq_zip)

text \<open>
  Claim C9. With an empty signature sequence and a positive block size, the blueprint scan
  of every candidate stream ends within \<open>length (contents ds) + 2\<close> passes of the loop
  and returns the empty instruction array and the empty request list (for both blueprint
  functions).
\<close>

theorem zsync_delta_empty_baseline:
  assumes "0 < blocksize" and "length (contents ds) + 2 \<le> fuel"
  shows "zsync_delta md5 fuel ds [] blocksize = Some (Inr ([], []))
       \<and> zsyncdelta md5 fuel ds [] blocksize = Some (Inr ([], []))"
proof -
  let ?st = "zsync_init ds ([] :: 'a hashes) blocksize"
  let ?d = "take blocksize (drop (pos ds) (contents ds))"
  obtain c a b where wc: "weakchecksum ?d = (c, a, b)"
    by (cases "weakchecksum ?d") auto
  have rs: "datastream (zsync_reseed blocksize ?st) = Some (ds\<lparr>pos := pos ds + length ?d\<rparr>)"
    and win: "window (zsync_reseed blocksize ?st) = ?d"
    using wc by (simp_all add: zsync_reseed_def zsync_init_def read_stream_def Let_def)
  have "\<exists>st'. iterate (zsync_body md5 blocksize) fuel ?st = Some (Returned st')
      \<and> remote_hashes st' = []"
  proof (rule empty_scan_returns [OF _ assms(1) rs])
    show "remote_hashes ?st = []" by (simp add: zsync_init_def)
    show "length (contents (ds\<lparr>pos := pos ds + length ?d\<rparr>)) - pos (ds\<lparr>pos := pos ds + length ?d\<rparr>)
        + length (window (zsync_reseed blocksize ?st)) + 1 < fuel"
      unfolding win using assms(2) by simp
  qed
  then obtain st' where "zsync_scan md5 fuel ds [] blocksize = Some (Returned st')"
    and "remote_hashes st' = []"
    by (auto simp: zsync_scan_def)
  then show ?thesis
    by (simp add: zsync_delta_def zsyncdelta_def get_instructions_def get_instructions2_def)
qed

theorem zsync_delta_empty_baseline_witness:
  "(0 :: nat) < 2
   \<and> length (contents \<lparr>contents = [1, 2, 3, 4, 5], pos = 0, closed = False\<rparr>) + 2 \<le> 7
   \<and> zsync_delta id 7 \<lparr>contents = [1, 2, 3, 4, 5], pos = 0, closed = False\<rparr> [] 2
       = Some (Inr ([], []))"
  using zsync_delta_empty_baseline
    [of 2 "\<lparr>contents = [1, 2, 3, 4, 5], pos = 0, closed = False\<rparr>" 7 id]
  by simp

section \<open>The signature table during a blueprint scan\<close>

lemma entries_Nil [simp]: "entries [] = []"
  by (simp add: entries_def)

lemma entries_Cons [simp]: "entries ((w, b) # t) = map (Pair w) b @ entries t"
  by (simp add: entries_def)

lemma entries_append [simp]: "entries (t @ u) = entries t @ entries u"
  by (simp add: entries_def)

lemma table_blocks_Nil [simp]: "table_blocks [] = []"
  by (simp add: table_blocks_def)

lemma table_blocks_Cons [simp]:
  "table_blocks ((w, b) # t) = map entry_block b @ table_blocks t"
  by (simp add: table_blocks_def)

lemma table_blocks_append [simp]: "table_blocks (t @ u) = table_blocks t @ table_blocks u"
  by (simp add: table_blocks_def)

subsection \<open>The scan keeps the blocks of the table\<close>

lemma scan_bucket_blocks:
  "scan_bucket ls off b = Inr (b', hit) \<Longrightarrow> map entry_block b' = map entry_block b"
proof (induction b arbitrary: b' hit)
  case Nil
  then show ?case by simp
next
  case (Cons e b)
  show ?case
  proof (cases e)
    case (Pair2 ro rs)
    with Cons show ?thesis
      by (auto split: if_splits sum.splits)
  next
    case (Triple3 ro rs f)
    with Cons.prems show ?thesis by simp
  qed
qed

lemma table_blocks_update:
  "map_of t k = Some b \<Longrightarrow> map entry_block b' = map entry_block b \<Longrightarrow>
     table_blocks (AList.update k b' t) = table_blocks t"
  by (induction t) (auto split: if_splits)

lemma next_byte_hashes:
  "next_byte bs st = Inr st' \<Longrightarrow> remote_hashes st' = remote_hashes st"
  by (auto simp: next_byte_def split: option.splits prod.splits list.splits if_splits)

lemma zsync_body_blocks:
  assumes "zsync_body md5 bs st = Continue st' \<or> zsync_body md5 bs st = Break st'"
  shows "table_blocks (remote_hashes st') = table_blocks (remote_hashes st)"
proof (cases "map_of (remote_hashes (zsync_reseed bs st)) (checksum (zsync_reseed bs st))")
  case None
  with assms show ?thesis
    by (auto simp: zsync_body_def Let_def split: sum.splits if_splits list.splits prod.splits
        dest!: next_byte_hashes)
next
  case (Some bucket)
  with assms obtain bucket' hit where
    sb: "scan_bucket (md5 (window (zsync_reseed bs st))) (local_offset (zsync_reseed bs st)) bucket
          = Inr (bucket', hit)"
    and st': "remote_hashes st'
          = AList.update (checksum (zsync_reseed bs st)) bucket' (remote_hashes st)"
    by (auto simp: zsync_body_def Let_def split: sum.splits if_splits option.splits)
  from Some have "map_of (remote_hashes st) (checksum (zsync_reseed bs st)) = Some bucket"
    by simp
  then show ?thesis
    unfolding st' by (rule table_blocks_update) (rule scan_bucket_blocks [OF sb])
qed

lemma zsync_iterate_blocks:
  "iterate (zsync_body md5 bs) fuel st = Some (Returned st') \<Longrightarrow>
     table_blocks (remote_hashes st') = table_blocks (remote_hashes st)"
proof (induction fuel arbitrary: st)
  case 0
  then show ?case by simp
next
  case (Suc fuel)
  show ?case
  proof (cases "zsync_body md5 bs st")
    case (Continue st1)
    with Suc.prems have "iterate (zsync_body md5 bs) fuel st1 = Some (Returned st')" by simp
    then have "table_blocks (remote_hashes st') = table_blocks (remote_hashes st1)"
      by (rule Suc.IH)
    then show ?thesis using zsync_body_blocks [of md5 bs st st1] Continue by simp
  next
    case (Break st1)
    with Suc.prems have "st1 = st'" by simp
    then show ?thesis using zsync_body_blocks [of md5 bs st st1] Break by simp
  next
    case (Raise e st1)
    with Suc.prems show ?thesis by simp
  qed
qed

subsection \<open>The table built from the signatures\<close>

lemma mset_table_blocks_update:
  "map_of t k = Some b \<Longrightarrow>
     mset (table_blocks (AList.update k (b @ [e]) t)) = add_mset (entry_block e) (mset (table_blocks t))"
  by (induction t) (auto split: if_splits)

lemma add_signature_blocks:
  "mset (table_blocks (fst (add_signature (i, w, s) acc)))
     = add_mset i (mset (table_blocks (fst acc)))"
  by (simp add: add_signature_def mset_table_blocks_update split: option.splits)

lemma add_signature_count: "snd (add_signature item acc) = snd acc + 1"
  by (simp add: add_signature_def split: prod.splits option.splits)

lemma fold_add_signature:
  "mset (table_blocks (fst (fold add_signature (enumerate k sigs) acc)))
     = mset [k..<k + length sigs] + mset (table_blocks (fst acc))
   \<and> snd (fold add_signature (enumerate k sigs) acc) = snd acc + length sigs"
proof (induction sigs arbitrary: k acc)
  case Nil
  then show ?case by simp
next
  case (Cons x sigs)
  obtain w s where x: "x = (w, s)" by (cases x)
  have "[k..<k + Suc (length sigs)] = k # [Suc k..<Suc k + length sigs]"
    by (metis upt_conv_Cons add_Suc add_Suc_right less_add_Suc1)
  then have up: "mset [k..<k + length (x # sigs)]
      = add_mset k (mset [Suc k..<Suc k + length sigs])"
    by (simp only: mset.simps list.size(4) One_nat_def add_Suc_right add_0_right)
  show ?case
    using Cons.IH [of "Suc k" "add_signature (k, w, s) acc"]
    unfolding up
    by (simp add: x add_signature_blocks add_signature_count del: mset_upt upt_Suc)
qed

lemma build_hashes_blocks:
  "mset (table_blocks (fst (build_hashes sigs))) = mset [0..<length sigs]"
  and build_hashes_count: "snd (build_hashes sigs) = length sigs"
  using fold_add_signature [of 0 sigs "([], 0)"] by (simp_all add: build_hashes_def)

lemma zsync_scan_blocks:
  assumes "zsync_scan md5 fuel ds sigs bs = Some (Returned st)"
  shows "mset (table_blocks (remote_hashes st)) = mset [0..<length sigs]"
proof -
  have "table_blocks (remote_hashes st) = table_blocks (fst (build_hashes sigs))"
    using zsync_iterate_blocks [OF assms [unfolded zsync_scan_def]]
    by (simp add: zsync_init_def)
  then show ?thesis by (simp add: build_hashes_blocks)
qed

section \<open>\<^verbatim>\<open>get_instructions\<close> on a table whose blocks are distinct\<close>

lemma place_bucket_result:
  assumes "\<forall>e \<in> set b. entry_block e < length (fst acc)" and "distinct (map entry_block b)"
  shows "\<exists>ins req. place_bucket tup w b acc = Inr (ins, req)
      \<and> length ins = length (fst acc)
      \<and> req = snd acc @ map entry_block (filter (\<lambda>e. \<not> is_found e) b)
      \<and> (\<forall>e \<in> set b. ins ! entry_block e = slot_of tup (w, e))
      \<and> (\<forall>i. i \<notin> entry_block ` set b \<longrightarrow> ins ! i = fst acc ! i)"
  using assms
proof (induction b arbitrary: acc)
  case Nil
  then show ?case by (cases acc) simp
next
  case (Cons e b)
  let ?acc' = "((fst acc)[entry_block e := slot_of tup (w, e)],
                snd acc @ (if is_found e then [] else [entry_block e]))"
  have step: "place_bucket tup w (e # b) acc = place_bucket tup w b ?acc'"
    using Cons.prems(1) by (cases e) simp_all
  have "\<exists>ins req. place_bucket tup w b ?acc' = Inr (ins, req)
      \<and> length ins = length (fst ?acc')
      \<and> req = snd ?acc' @ map entry_block (filter (\<lambda>e. \<not> is_found e) b)
      \<and> (\<forall>e \<in> set b. ins ! entry_block e = slot_of tup (w, e))
      \<and> (\<forall>i. i \<notin> entry_block ` set b \<longrightarrow> ins ! i = fst ?acc' ! i)"
    using Cons.prems by (intro Cons.IH) simp_all
  then obtain ins req where r: "place_bucket tup w b ?acc' = Inr (ins, req)"
    and len: "length ins = length (fst acc)"
    and req: "req = snd ?acc' @ map entry_block (filter (\<lambda>e. \<not> is_found e) b)"
    and hit: "\<forall>e \<in> set b. ins ! entry_block e = slot_of tup (w, e)"
    and miss: "\<forall>i. i \<notin> entry_block ` set b \<longrightarrow> ins ! i = fst ?acc' ! i"
    by auto
  have e: "ins ! entry_block e = slot_of tup (w, e)"
    using miss Cons.prems by auto
  have miss': "\<forall>i. i \<notin> entry_block ` set (e # b) \<longrightarrow> ins ! i = fst acc ! i"
    using miss by auto
  show ?case
    unfolding step using r len req hit e miss' by auto
qed

lemma place_all_result:
  assumes "\<forall>i \<in> set (table_blocks t). i < length (fst acc)" and "distinct (table_blocks t)"
  shows "\<exists>ins req. place_all tup t acc = Inr (ins, req)
      \<and> length ins = length (fst acc)
      \<and> req = snd acc @ map (entry_block \<circ> snd) (filter (\<lambda>we. \<not> is_found (snd we)) (entries t))
      \<and> (\<forall>we \<in> set (entries t). ins ! entry_block (snd we) = slot_of tup we)
      \<and> (\<forall>i. i \<notin> set (table_blocks t) \<longrightarrow> ins ! i = fst acc ! i)"
  using assms
proof (induction t arbitrary: acc)
  case Nil
  then show ?case by (cases acc) simp
next
  case (Cons wb t)
  obtain w b where wb: "wb = (w, b)" by (cases wb)
  from Cons.prems have b1: "\<forall>e \<in> set b. entry_block e < length (fst acc)"
    and b2: "distinct (map entry_block b)"
    and t1: "\<forall>i \<in> set (table_blocks t). i < length (fst acc)"
    and t2: "distinct (table_blocks t)"
    and disj: "entry_block ` set b \<inter> set (table_blocks t) = {}"
    by (auto simp: wb)
  from place_bucket_result [OF b1 b2, of tup w] obtain ins1 req1 where
    r1: "place_bucket tup w b acc = Inr (ins1, req1)"
    and len1: "length ins1 = length (fst acc)"
    and req1: "req1 = snd acc @ map entry_block (filter (\<lambda>e. \<not> is_found e) b)"
    and hit1: "\<forall>e \<in> set b. ins1 ! entry_block e = slot_of tup (w, e)"
    and miss1: "\<forall>i. i \<notin> entry_block ` set b \<longrightarrow> ins1 ! i = fst acc ! i"
    by blast
  have "\<exists>ins req. place_all tup t (ins1, req1) = Inr (ins, req)
      \<and> length ins = length (fst (ins1, req1))
      \<and> req = snd (ins1, req1)
            @ map (entry_block \<circ> snd) (filter (\<lambda>we. \<not> is_found (snd we)) (entries t))
      \<and> (\<forall>we \<in> set (entries t). ins ! entry_block (snd we) = slot_of tup we)
      \<and> (\<forall>i. i \<notin> set (table_blocks t) \<longrightarrow> ins ! i = fst (ins1, req1) ! i)"
    using t1 t2 len1 by (intro Cons.IH) simp_all
  then obtain ins req where r: "place_all tup t (ins1, req1) = Inr (ins, req)"
    and len: "length ins = length ins1"
    and req: "req = req1
            @ map (entry_block \<circ> snd) (filter (\<lambda>we. \<not> is_found (snd we)) (entries t))"
    and hit: "\<forall>we \<in> set (entries t). ins ! entry_block (snd we) = slot_of tup we"
    and miss: "\<forall>i. i \<notin> set (table_blocks t) \<longrightarrow> ins ! i = ins1 ! i"
    by auto
  have hitb: "\<forall>e \<in> set b. ins ! entry_block e = slot_of tup (w, e)"
  proof
    fix e assume e: "e \<in> set b"
    then have "entry_block e \<notin> set (table_blocks t)" using disj by blast
    then have "ins ! entry_block e = ins1 ! entry_block e" using miss by blast
    then show "ins ! entry_block e = slot_of tup (w, e)" using hit1 e by simp
  qed
  have filt: "map (\<lambda>we. entry_block (snd we))
        (filter (\<lambda>we. \<not> is_found (snd we)) (map (Pair w) b))
      = map entry_block (filter (\<lambda>e. \<not> is_found e) b)"
    by (induction b) simp_all
  show ?case
    using r1 r len len1 req req1 hit hitb miss miss1 filt
    by (auto simp: wb)
qed

section \<open>The blueprint returned by a completed scan\<close>

lemma scan_table_distinct:
  assumes "zsync_scan md5 fuel ds sigs bs = Some (Returned st)"
  shows "distinct (table_blocks (remote_hashes st))"
    and "set (table_blocks (remote_hashes st)) = {..<length sigs}"
proof -
  note m = zsync_scan_blocks [OF assms]
  have "distinct [0..<length sigs]" by simp
  then show "distinct (table_blocks (remote_hashes st))"
    using m by (metis mset_eq_imp_distinct_iff)
  have "set (table_blocks (remote_hashes st)) = set [0..<length sigs]"
    using m by (rule mset_eq_setD)
  then show "set (table_blocks (remote_hashes st)) = {..<length sigs}"
    by (simp add: atLeast0LessThan)
qed

lemma blueprint_of_scan:
  assumes "zsync_scan md5 fuel ds sigs bs = Some (Returned st)"
  shows "\<exists>ins req. place_all tup (remote_hashes st) (replicate (length sigs) PNone, []) = Inr (ins, req)
      \<and> length ins = length sigs
      \<and> req = map (entry_block \<circ> snd)
                (filter (\<lambda>we. \<not> is_found (snd we)) (entries (remote_hashes st)))
      \<and> (\<forall>we \<in> set (entries (remote_hashes st)). ins ! entry_block (snd we) = slot_of tup we)"
proof -
  note d = scan_table_distinct [OF assms]
  have "\<forall>i \<in> set (table_blocks (remote_hashes st)).
      i < length (fst (replicate (length sigs) (PNone :: 'a slot), [] :: nat list))"
    using d(2) by simp
  from place_all_result [OF this d(1), of tup] show ?thesis by auto
qed

lemma blueprint_requests:
  assumes "zsync_scan md5 fuel ds sigs bs = Some (Returned st)"
    and "place_all tup (remote_hashes st) (replicate (length sigs) PNone, []) = Inr (ins, req)"
  shows "req = map (entry_block \<circ> snd)
                (filter (\<lambda>we. \<not> is_found (snd we)) (entries (remote_hashes st)))"
  using blueprint_of_scan [OF assms(1), of tup] assms(2) by auto

lemma blueprint_requests_distinct:
  assumes "zsync_scan md5 fuel ds sigs bs = Some (Returned st)"
    and "place_all tup (remote_hashes st) (replicate (length sigs) PNone, []) = Inr (ins, req)"
  shows "distinct req" and "set req \<subseteq> {..<length sigs}"
proof -
  note r = blueprint_requests [OF assms]
  have "distinct (map (entry_block \<circ> snd) (entries (remote_hashes st)))"
    using scan_table_distinct(1) [OF assms(1)] by (simp add: table_blocks_def)
  then show "distinct req"
    unfolding r by (rule distinct_map_filter)
  have "set req \<subseteq> set (table_blocks (remote_hashes st))"
    unfolding r table_blocks_def by auto
  then show "set req \<subseteq> {..<length sigs}"
    using scan_table_distinct(2) [OF assms(1)] by simp
qed

lemma blueprint_slots:
  assumes scan: "zsync_scan md5 fuel ds sigs bs = Some (Returned st)"
    and place: "place_all tup (remote_hashes st) (replicate (length sigs) PNone, []) = Inr (ins, req)"
    and i: "i < length sigs"
  shows "(\<exists>w s. ins ! i = tup i w s \<and> count_list req i = 1)
       \<or> (\<exists>off. ins ! i = PInt off \<and> i \<notin> set req)"
proof -
  let ?es = "entries (remote_hashes st)"
  note d = scan_table_distinct [OF scan]
  from blueprint_of_scan [OF scan, of tup] place
  have req: "req = map (entry_block \<circ> snd) (filter (\<lambda>we. \<not> is_found (snd we)) ?es)"
    and hit: "\<forall>we \<in> set ?es. ins ! entry_block (snd we) = slot_of tup we"
    by auto
  have dm: "distinct (map (entry_block \<circ> snd) ?es)"
    using d(1) by (simp add: table_blocks_def)
  then have inj: "inj_on (entry_block \<circ> snd) (set ?es)"
    by (simp add: distinct_map)
  have dreq: "distinct req"
    unfolding req using dm by (rule distinct_map_filter)
  from i d(2) have "i \<in> set (map (entry_block \<circ> snd) ?es)"
    by (simp add: table_blocks_def)
  then obtain w e where we: "(w, e) \<in> set ?es" and ei: "entry_block e = i"
    by auto
  from hit we ei have slot: "ins ! i = slot_of tup (w, e)" by force
  show ?thesis
  proof (cases e)
    case (Pair2 b s)
    with ei have b: "b = i" by simp
    have "i \<in> set req"
      unfolding req using we Pair2 b by force
    with dreq have "count_list req i = 1"
      by (metis count_mset distinct_count_atmost_1)
    then have "ins ! i = tup i w s \<and> count_list req i = 1"
      using slot Pair2 b by simp
    then show ?thesis by blast
  next
    case (Triple3 b s off)
    have "i \<notin> set req"
    proof
      assume "i \<in> set req"
      then obtain w' e' where we': "(w', e') \<in> set ?es" and nf: "\<not> is_found e'"
        and ei': "entry_block e' = i"
        unfolding req by auto
      from inj we we' ei ei' have "(w', e') = (w, e)"
        by (auto dest!: inj_onD [where x = "(w', e')" and y = "(w, e)"])
      with nf Triple3 show False by simp
    qed
    then have "ins ! i = PInt off \<and> i \<notin> set req"
      using slot Triple3 by simp
    then show ?thesis by blast
  qed
qed

lemma zsync_delta_cases:
  assumes "zsync_delta md5 fuel ds sigs bs = Some (Inr (ins, req))"
  obtains st where "zsync_scan md5 fuel ds sigs bs = Some (Returned st)"
    and "place_all (\<lambda>remote_block weak strong. PTuple3 (int remote_block * int bs) weak strong)
           (remote_hashes st) (replicate (length sigs) PNone, []) = Inr (ins, req)"
  using assms
  by (auto simp: zsync_delta_def get_instructions_def build_hashes_count
      split: option.splits run.splits)

lemma zsyncdelta_cases:
  assumes "zsyncdelta md5 fuel ds sigs bs = Some (Inr (ins, req))"
  obtains st where "zsync_scan md5 fuel ds sigs bs = Some (Returned st)"
    and "place_all (\<lambda>remote_block weak strong. PTuple2 weak strong)
           (remote_hashes st) (replicate (length sigs) PNone, []) = Inr (ins, req)"
  using assms
  by (auto simp: zsyncdelta_def get_instructions2_def build_hashes_count
      split: option.splits run.splits)

lemma blueprint_length:
  assumes "zsync_scan md5 fuel ds sigs bs = Some (Returned st)"
    and "place_all tup (remote_hashes st) (replicate (length sigs) PNone, []) = Inr (ins, req)"
  shows "length ins = length sigs"
  using blueprint_of_scan [OF assms(1), of tup] assms(2) by auto

text \<open>
  Claim C6. After a completed blueprint scan over \<open>numBlocks = length sigs\<close> signatures the
  instruction array has \<open>numBlocks\<close> slots, and every index below \<open>numBlocks\<close> is in
  exactly one of two states: its slot is the unresolved tuple and the index occurs
  exactly once in \<open>to_request\<close>, or its slot is a local byte offset and the index does not
  occur in \<open>to_request\<close>.
\<close>

theorem blueprint_partition:
  assumes "zsync_delta md5 fuel ds sigs blocksize = Some (Inr (instructions, to_request))"
  shows "length instructions = length sigs
       \<and> (\<forall>i < length sigs.
             (\<exists>weak strong. instructions ! i = PTuple3 (int i * int blocksize) weak strong
                \<and> count_list to_request i = 1)
           \<or> (\<exists>off. instructions ! i = PInt off \<and> i \<notin> set to_request))"
proof -
  from assms obtain st where scan: "zsync_scan md5 fuel ds sigs blocksize = Some (Returned st)"
    and place: "place_all (\<lambda>remote_block weak strong.
                   PTuple3 (int remote_block * int blocksize) weak strong)
           (remote_hashes st) (replicate (length sigs) PNone, []) = Inr (instructions, to_request)"
    by (rule zsync_delta_cases)
  show ?thesis
    using blueprint_length [OF scan place] blueprint_slots [OF scan place] by blast
qed

theorem blueprint_partition_witness:
  "zsync_delta id 2 \<lparr>contents = [1, 2, 9], pos = 0, closed = False\<rparr>
      [(262147, [1, 2]), (655367, [3, 4])] 2
     = Some (Inr ([PInt 0, PTuple3 2 655367 [3, 4]], [1]))
   \<and> length [PInt 0, PTuple3 2 655367 [3, 4 :: byte]]
       = length [(262147 :: int, [1, 2 :: byte]), (655367, [3, 4])]
   \<and> [PInt 0, PTuple3 2 655367 [3, 4 :: byte]] ! 1 = PTuple3 (int 1 * int 2) 655367 [3, 4]
   \<and> count_list [1 :: nat] 1 = 1"
proof -
  have v: "zsync_delta id 2 \<lparr>contents = [1, 2, 9], pos = 0, closed = False\<rparr>
      [(262147, [1, 2]), (655367, [3, 4])] 2
     = Some (Inr ([PInt 0, PTuple3 2 655367 [3, 4]], [1]))"
    by code_simp
  from blueprint_partition [OF v] v show ?thesis by simp
qed

section \<open>The order of the request list\<close>

lemma fold_add_signature_fresh:
  assumes "distinct (map fst sigs)" and "set (map fst sigs) \<inter> fst ` set (fst acc) = {}"
  shows "table_blocks (fst (fold add_signature (enumerate k sigs) acc))
      = table_blocks (fst acc) @ [k..<k + length sigs]"
  using assms
proof (induction sigs arbitrary: k acc)
  case Nil
  then show ?case by simp
next
  case (Cons x sigs)
  obtain w s where x: "x = (w, s)" by (cases x)
  from Cons.prems have fresh: "map_of (fst acc) w = None"
    by (auto simp: x map_of_eq_None_iff)
  then have step: "add_signature (k, w, s) acc = (fst acc @ [(w, [Pair2 k s])], snd acc + 1)"
    by (simp add: add_signature_def)
  have "table_blocks (fst (fold add_signature (enumerate (Suc k) sigs) (add_signature (k, w, s) acc)))
      = table_blocks (fst (add_signature (k, w, s) acc)) @ [Suc k..<Suc k + length sigs]"
    using Cons.prems by (intro Cons.IH) (auto simp: x step)
  moreover have "[k..<k + Suc (length sigs)] = k # [Suc k..<Suc k + length sigs]"
    by (metis upt_conv_Cons add_Suc add_Suc_right less_add_Suc1)
  ultimately show ?case
    by (simp add: x step del: upt_Suc)
qed

lemma build_hashes_distinct_weak:
  "distinct (map fst sigs) \<Longrightarrow> table_blocks (fst (build_hashes sigs)) = [0..<length sigs]"
  using fold_add_signature_fresh [of sigs "([], 0)" 0] by (simp add: build_hashes_def)

lemma request_order:
  assumes weak: "distinct (map fst sigs)"
    and scan: "zsync_scan md5 fuel ds sigs bs = Some (Returned st)"
    and place: "place_all tup (remote_hashes st) (replicate (length sigs) PNone, []) = Inr (ins, req)"
  shows "sorted_wrt (<) req"
proof -
  let ?es = "entries (remote_hashes st)"
  have "table_blocks (remote_hashes st) = table_blocks (fst (build_hashes sigs))"
    using zsync_iterate_blocks [OF scan [unfolded zsync_scan_def]]
    by (simp add: zsync_init_def)
  then have "table_blocks (remote_hashes st) = [0..<length sigs]"
    using weak by (simp add: build_hashes_distinct_weak)
  then have "map (entry_block \<circ> snd) ?es = [0..<length sigs]"
    by (simp add: table_blocks_def)
  then have "sorted_wrt (<) (map (entry_block \<circ> snd) ?es)"
    by simp
  then have "sorted_wrt (\<lambda>x y. (entry_block \<circ> snd) x < (entry_block \<circ> snd) y) ?es"
    by (simp only: sorted_wrt_map)
  then have "sorted_wrt (\<lambda>x y. (entry_block \<circ> snd) x < (entry_block \<circ> snd) y)
      (filter (\<lambda>we. \<not> is_found (snd we)) ?es)"
    by (rule sorted_wrt_filter)
  then have "sorted_wrt (<) (map (entry_block \<circ> snd) (filter (\<lambda>we. \<not> is_found (snd we)) ?es))"
    by (simp only: sorted_wrt_map)
  moreover have "req = map (entry_block \<circ> snd) (filter (\<lambda>we. \<not> is_found (snd we)) ?es)"
    using blueprint_of_scan [OF scan, of tup] place by auto
  ultimately show ?thesis by simp
qed

lemma request_set:
  assumes scan: "zsync_scan md5 fuel ds sigs bs = Some (Returned st)"
    and place: "place_all tup (remote_hashes st) (replicate (length sigs) PNone, []) = Inr (ins, req)"
    and tup: "\<And>b w s off. tup b w s \<noteq> PInt off"
  shows "set req = {i. i < length sigs \<and> (\<forall>off. ins ! i \<noteq> PInt off)}"
proof (rule set_eqI)
  fix i
  show "i \<in> set req \<longleftrightarrow> i \<in> {i. i < length sigs \<and> (\<forall>off. ins ! i \<noteq> PInt off)}"
  proof (cases "i < length sigs")
    case True
    from blueprint_slots [OF scan place True] show ?thesis
    proof (elim disjE exE conjE)
      fix w s assume s: "ins ! i = tup i w s" and c: "count_list req i = 1"
      from c have "i \<in> set req"
        using count_list_0_iff [of req i] by simp
      moreover have "\<forall>off. ins ! i \<noteq> PInt off"
        using s tup by simp
      ultimately show ?thesis using True by simp
    next
      fix off assume "ins ! i = PInt off" and "i \<notin> set req"
      then show ?thesis by simp
    qed
  next
    case False
    have "set req \<subseteq> set (table_blocks (remote_hashes st))"
      using blueprint_of_scan [OF scan, of tup] place by (auto simp: table_blocks_def)
    with False scan_table_distinct(2) [OF scan] show ?thesis by auto
  qed
qed

text \<open>
  Claim C7 as stated fails: \<^verbatim>\<open>get_instructions\<close> walks the dict bucket by bucket, so two
  blocks with the same weak checksum are requested next to each other. The baseline
  \<^verbatim>\<open>[1,0,1, 9,9,9, 0,2,0]\<close> with block size 3 has equal weak checksums for its blocks 0
  and 2; scanning an empty candidate returns the request list \<^verbatim>\<open>[0, 2, 1]\<close>.
\<close>

theorem to_request_order_counterexample:
  "zsync_delta id 1 \<lparr>contents = [], pos = 0, closed = False\<rparr>
     (fst (block_checksums id \<lparr>contents = [1, 0, 1, 9, 9, 9, 0, 2, 0], pos = 0, closed = False\<rparr> 3)) 3
   = Some (Inr ([PTuple3 0 262146 [1, 0, 1], PTuple3 3 3538971 [9, 9, 9],
                 PTuple3 6 262146 [0, 2, 0]], [0, 2, 1]))"
  by code_simp

text \<open>
  Claim C7, amended. For every completed blueprint scan (of either module) over signatures
  whose weak checksums are pairwise distinct, the returned request list is strictly
  increasing, and it holds exactly the indices whose slot is not a local offset.
\<close>

theorem to_request_increasing:
  assumes "distinct (map fst sigs)"
  shows "(zsync_delta md5 fuel ds sigs blocksize = Some (Inr (instructions, to_request)) \<longrightarrow>
            sorted_wrt (<) to_request
          \<and> set to_request = {i. i < length sigs \<and> (\<forall>off. instructions ! i \<noteq> PInt off)})
       \<and> (zsyncdelta md5 fuel ds sigs blocksize = Some (Inr (instructions, to_request)) \<longrightarrow>
            sorted_wrt (<) to_request
          \<and> set to_request = {i. i < length sigs \<and> (\<forall>off. instructions ! i \<noteq> PInt off)})"
proof (intro conjI impI)
  assume r: "zsync_delta md5 fuel ds sigs blocksize = Some (Inr (instructions, to_request))"
  then obtain st where scan: "zsync_scan md5 fuel ds sigs blocksize = Some (Returned st)"
    and place: "place_all (\<lambda>remote_block weak strong.
                   PTuple3 (int remote_block * int blocksize) weak strong)
           (remote_hashes st) (replicate (length sigs) PNone, []) = Inr (instructions, to_request)"
    by (rule zsync_delta_cases)
  show "sorted_wrt (<) to_request"
    using assms scan place by (rule request_order)
  show "set to_request = {i. i < length sigs \<and> (\<forall>off. instructions ! i \<noteq> PInt off)}"
    using scan place by (rule request_set) simp
next
  assume r: "zsyncdelta md5 fuel ds sigs blocksize = Some (Inr (instructions, to_request))"
  then obtain st where scan: "zsync_scan md5 fuel ds sigs blocksize = Some (Returned st)"
    and place: "place_all (\<lambda>remote_block weak strong. PTuple2 weak strong)
           (remote_hashes st) (replicate (length sigs) PNone, []) = Inr (instructions, to_request)"
    by (rule zsyncdelta_cases)
  show "sorted_wrt (<) to_request"
    using assms scan place by (rule request_order)
  show "set to_request = {i. i < length sigs \<and> (\<forall>off. instructions ! i \<noteq> PInt off)}"
    using scan place by (rule request_set) simp
qed

theorem to_request_increasing_witness:
  "distinct (map fst [(262147 :: int, [1, 2 :: byte]), (655367, [3, 4]), (327685, [5])])
   \<and> zsync_delta id 2 \<lparr>contents = [3, 4], pos = 0, closed = False\<rparr>
        [(262147, [1, 2]), (655367, [3, 4]), (327685, [5])] 2
      = Some (Inr ([PTuple3 0 262147 [1, 2], PInt 0, PTuple3 4 327685 [5]], [0, 2]))
   \<and> sorted_wrt (<) [0, 2 :: nat]"
proof -
  have d: "distinct (map fst [(262147 :: int, [1, 2 :: byte]), (655367, [3, 4]), (327685, [5])])"
    by simp
  have v: "zsync_delta id 2 \<lparr>contents = [3, 4], pos = 0, closed = False\<rparr>
        [(262147, [1, 2]), (655367, [3, 4]), (327685, [5])] 2
      = Some (Inr ([PTuple3 0 262147 [1, 2], PInt 0, PTuple3 4 327685 [5]], [0, 2]))"
    by code_simp
  from to_request_increasing [OF d, of id 2 "\<lparr>contents = [3, 4], pos = 0, closed = False\<rparr>" 2
      "[PTuple3 0 262147 [1, 2], PInt 0, PTuple3 4 327685 [5]]" "[0, 2]"] v d
  show ?thesis by blast
qed

section \<open>Merging the requested blocks into the blueprint\<close>

lemma get_blocks_items:
  "fst (get_blocks src requests bs)
     = map (\<lambda>block. (block, take bs (drop (block * bs) (contents src)))) requests"
proof (induction requests arbitrary: src)
  case Nil
  then show ?case by simp
next
  case (Cons block requests)
  let ?src' = "seek (block * bs) src
      \<lparr>pos := block * bs + length (take bs (drop (block * bs) (contents src)))\<rparr>"
  have c: "contents ?src' = contents src" by (simp add: seek_def)
  have "fst (get_blocks src (block # requests) bs)
      = (block, take bs (drop (block * bs) (contents src))) # fst (get_blocks ?src' requests bs)"
    by (simp add: read_stream_def seek_def Let_def split_beta)
  then show ?case by (simp add: Cons.IH c seek_def)
qed

lemma merge_requested:
  assumes "distinct requests"
    and "\<forall>r \<in> set requests. r < length ins \<and> (\<exists>w s. ins ! r = PTuple3 (int r * int bs) w s)"
  shows "\<exists>merged. merge_instructions_blocks ins (map (\<lambda>r. (r, f r)) requests) bs = Inr merged
      \<and> length merged = length ins
      \<and> (\<forall>i < length ins. merged ! i = (if i \<in> set requests then PBytes (f i) else ins ! i))"
  using assms
proof (induction requests arbitrary: ins)
  case Nil
  then show ?case by simp
next
  case (Cons r requests)
  from Cons.prems obtain w s where r: "r < length ins" "ins ! r = PTuple3 (int r * int bs) w s"
    by auto
  let ?ins' = "ins[r := PBytes (f r)]"
  have step: "merge_instructions_blocks ins (map (\<lambda>r. (r, f r)) (r # requests)) bs
      = merge_instructions_blocks ?ins' (map (\<lambda>r. (r, f r)) requests) bs"
    using r by (simp add: slot_first_def)
  have "\<exists>merged. merge_instructions_blocks ?ins' (map (\<lambda>r. (r, f r)) requests) bs = Inr merged
      \<and> length merged = length ?ins'
      \<and> (\<forall>i < length ?ins'. merged ! i
            = (if i \<in> set requests then PBytes (f i) else ?ins' ! i))"
  proof (rule Cons.IH)
    show "distinct requests" using Cons.prems(1) by simp
    show "\<forall>q \<in> set requests. q < length ?ins'
        \<and> (\<exists>w s. ?ins' ! q = PTuple3 (int q * int bs) w s)"
    proof
      fix q assume q: "q \<in> set requests"
      then have "q \<noteq> r" using Cons.prems(1) by auto
      then show "q < length ?ins' \<and> (\<exists>w s. ?ins' ! q = PTuple3 (int q * int bs) w s)"
        using Cons.prems(2) q by simp
    qed
  qed
  then obtain merged where
    m: "merge_instructions_blocks ?ins' (map (\<lambda>r. (r, f r)) requests) bs = Inr merged"
    and len: "length merged = length ins"
    and nth: "\<forall>i < length ins. merged ! i
            = (if i \<in> set requests then PBytes (f i) else ?ins' ! i)"
    by auto
  have "\<forall>i < length ins. merged ! i
      = (if i \<in> set (r # requests) then PBytes (f i) else ins ! i)"
    using nth r(1) by (auto simp: nth_list_update)
  then show ?case unfolding step using m len by blast
qed

subsection \<open>The local offsets recorded by the scan\<close>

lemma entries_update_subset:
  "set (entries (AList.update k b' t)) \<subseteq> set (entries t) \<union> Pair k ` set b'"
  by (induction t) auto

lemma entries_bucket:
  "map_of t k = Some b \<Longrightarrow> Pair k ` set b \<subseteq> set (entries t)"
  by (induction t) (auto split: if_splits)

lemma scan_bucket_entries:
  "scan_bucket ls off b = Inr (b', hit) \<Longrightarrow> e' \<in> set b' \<Longrightarrow>
     e' \<in> set b \<or> (\<exists>ro. e' = Triple3 ro ls off \<and> Pair2 ro ls \<in> set b)"
proof (induction b arbitrary: b' hit)
  case Nil
  then show ?case by simp
next
  case (Cons e b)
  show ?case
  proof (cases e)
    case (Pair2 ro rs)
    show ?thesis
    proof (cases "ls = rs")
      case True
      with Cons.prems Pair2 show ?thesis by auto
    next
      case False
      with Cons.prems(1) Pair2 obtain rest' where
        r: "scan_bucket ls off b = Inr (rest', hit)" and b': "b' = Pair2 ro rs # rest'"
        by (auto split: sum.splits)
      from Cons.prems(2) b' have "e' = Pair2 ro rs \<or> e' \<in> set rest'" by simp
      then show ?thesis
      proof
        assume "e' = Pair2 ro rs"
        then show ?thesis using Pair2 by simp
      next
        assume "e' \<in> set rest'"
        from Cons.IH [OF r this] show ?thesis by auto
      qed
    qed
  next
    case (Triple3 ro rs f)
    with Cons.prems show ?thesis by simp
  qed
qed

lemma tracks_Some:
  "datastream st = Some d \<Longrightarrow>
     tracks ds0 bs st \<longleftrightarrow>
       0 \<le> local_offset st \<and> contents d = contents ds0
       \<and> window st = take bs (drop (pos ds0 + nat (local_offset st)) (contents ds0))
       \<and> (pos d = pos ds0 + nat (local_offset st) + length (window st)
          \<or> (length (contents ds0) \<le> pos d
             \<and> length (contents ds0) \<le> pos ds0 + nat (local_offset st)))"
  by (simp add: tracks_def)

lemma tracks_reseed:
  assumes tr: "tracks ds0 bs st"
    and same: "datastream st' = datastream st" "window st' = window st"
      "local_offset st' = local_offset st"
  shows "tracks ds0 bs (zsync_reseed bs st')"
proof (cases "datastream st")
  case None
  with same(1) show ?thesis by (simp add: tracks_def)
next
  case (Some d)
  let ?C = "contents ds0"
  let ?q = "pos ds0 + nat (local_offset st)"
  have "0 \<le> local_offset st \<and> contents d = ?C
      \<and> window st = take bs (drop ?q ?C)
      \<and> (pos d = ?q + length (window st) \<or> (length ?C \<le> pos d \<and> length ?C \<le> ?q))"
    by (rule iffD1 [OF tracks_Some [OF Some] tr])
  then have lo: "0 \<le> local_offset st" and cd: "contents d = ?C"
    and w: "window st = take bs (drop ?q ?C)"
    and p: "pos d = ?q + length (window st) \<or> (length ?C \<le> pos d \<and> length ?C \<le> ?q)"
    by blast+
  show ?thesis
  proof (cases "match st'")
    case False
    then have r: "zsync_reseed bs st' = st'" by simp
    have s': "datastream st' = Some d" using same(1) Some by simp
    have "tracks ds0 bs st'"
      using iffD1 [OF tracks_Some [OF Some] tr]
      unfolding tracks_Some [OF s'] same(2,3) .
    then show ?thesis unfolding r .
  next
    case True
    let ?x = "take bs (drop (pos d) ?C)"
    let ?d' = "d\<lparr>pos := pos d + length ?x\<rparr>"
    obtain c a b where wk: "weakchecksum ?x = (c, a, b)"
      by (cases "weakchecksum ?x") auto
    have rs: "zsync_reseed bs st' = st'\<lparr>datastream := Some ?d', window := ?x,
        local_offset := local_offset st + int bs, checksum := c, sum_a := a, sum_b := b\<rparr>"
      using True Some same cd wk by (simp add: zsync_reseed_def read_stream_def Let_def)
    have q': "pos ds0 + nat (local_offset st + int bs) = ?q + bs"
      using lo by (simp add: nat_add_distrib)
    have claim: "?x = take bs (drop (?q + bs) ?C)
        \<and> (pos d + length ?x = ?q + bs + length ?x
           \<or> (length ?C \<le> pos d + length ?x \<and> length ?C \<le> ?q + bs))"
    proof (cases "bs \<le> length ?C - ?q")
      case True
      then have "length (window st) = bs" unfolding w by simp
      with p True have "pos d = ?q + bs \<or> (length ?C \<le> pos d \<and> length ?C \<le> ?q)"
        by simp
      then show ?thesis by auto
    next
      case False
      then have lw: "length (window st) = length ?C - ?q" unfolding w by simp
      from False have far: "length ?C \<le> ?q + bs" by simp
      from p have "length ?C \<le> pos d"
      proof
        assume "pos d = ?q + length (window st)"
        then show ?thesis unfolding lw by arith
      next
        assume "length ?C \<le> pos d \<and> length ?C \<le> ?q"
        then show ?thesis by simp
      qed
      with far show ?thesis by simp
    qed
    have s2: "datastream (zsync_reseed bs st') = Some ?d'"
      and lo2: "local_offset (zsync_reseed bs st') = local_offset st + int bs"
      and w2: "window (zsync_reseed bs st') = ?x"
      unfolding rs by simp_all
    have c1: "0 \<le> local_offset st + int bs" using lo by simp
    have c2: "contents ?d' = ?C" using cd by simp
    note c3 = claim [THEN conjunct1]
    have c4: "pos ?d' = ?q + bs + length ?x
        \<or> (length ?C \<le> pos ?d' \<and> length ?C \<le> ?q + bs)"
      using claim [THEN conjunct2] by simp
    show ?thesis
      unfolding tracks_Some [OF s2] lo2 w2 q'
      by (rule conjI [OF c1 conjI [OF c2 conjI [OF c3 c4]]])
  qed
qed

lemma next_byte_match: "next_byte bs st = Inr st' \<Longrightarrow> match st' = match st"
  by (auto simp: next_byte_def read_stream_def Let_def split: option.splits list.splits if_splits)

lemma next_byte_tracks:
  assumes tr: "tracks ds0 bs st"
    and nb: "next_byte bs (st\<lparr>match := False\<rparr>) = Inr st1"
    and d': "datastream st1 = Some d'"
    and win: "window st1 = oldbyte # rest"
  shows "tracks ds0 bs (st1\<lparr>window := rest, local_offset := local_offset st1 + 1,
           checksum := c, sum_a := a, sum_b := b\<rparr>)"
proof -
  let ?C = "contents ds0"
  let ?q = "pos ds0 + nat (local_offset st)"
  from nb d' obtain d where Some: "datastream st = Some d"
    by (cases "datastream st") (auto simp: next_byte_def)
  have "0 \<le> local_offset st \<and> contents d = ?C
      \<and> window st = take bs (drop ?q ?C)
      \<and> (pos d = ?q + length (window st) \<or> (length ?C \<le> pos d \<and> length ?C \<le> ?q))"
    by (rule iffD1 [OF tracks_Some [OF Some] tr])
  then have lo: "0 \<le> local_offset st" and cd: "contents d = ?C"
    and w: "window st = take bs (drop ?q ?C)"
    and p: "pos d = ?q + length (window st) \<or> (length ?C \<le> pos d \<and> length ?C \<le> ?q)"
    by blast+
  have "\<exists>x. take (Suc 0) (drop (pos d) ?C) = [x]
      \<and> st1 = st\<lparr>match := False, datastream := Some (d\<lparr>pos := Suc (pos d)\<rparr>),
          newbyte := uint x, window := window st @ [x]\<rparr>"
  proof (cases "take (Suc 0) (drop (pos d) ?C)")
    case Nil
    with nb Some cd have "datastream st1 = None"
      by (auto simp: next_byte_def read_stream_def Let_def split: if_splits)
    with d' show ?thesis by simp
  next
    case (Cons y ys)
    then have y: "take (Suc 0) (drop (pos d) ?C) = [y]"
      by (cases "drop (pos d) ?C") auto
    with nb Some cd show ?thesis
      by (simp add: next_byte_def read_stream_def Let_def)
  qed
  then obtain x where x: "take (Suc 0) (drop (pos d) ?C) = [x]"
    and st1: "st1 = st\<lparr>match := False, datastream := Some (d\<lparr>pos := Suc (pos d)\<rparr>),
          newbyte := uint x, window := window st @ [x]\<rparr>"
    by blast
  from x have lt: "pos d < length ?C" by (cases "pos d < length ?C") auto
  from x lt have xc: "x = ?C ! pos d"
    by (simp add: take_Suc_conv_app_nth [of 0 "drop (pos d) ?C", simplified])
  from p lt have pd: "pos d = ?q + length (window st)" by simp
  have full: "length (window st) = bs"
  proof (rule ccontr)
    assume ne: "length (window st) \<noteq> bs"
    have "length (window st) = min bs (length ?C - ?q)" unfolding w by simp
    with ne have "length (window st) = length ?C - ?q" by arith
    with pd lt show False by arith
  qed
  have bsl: "bs < length (drop ?q ?C)" using pd lt full by simp
  have pq: "pos d = ?q + bs" using pd full by simp
  have "x = drop ?q ?C ! bs" unfolding xc pq using bsl by simp
  then have "take bs (drop ?q ?C) @ [x] = take (Suc bs) (drop ?q ?C)"
    using take_Suc_conv_app_nth [OF bsl] by simp
  then have "window st @ [x] = take (Suc bs) (drop ?q ?C)"
    by (simp only: w [symmetric])
  then have "oldbyte # rest = take (Suc bs) (drop ?q ?C)"
    using win st1 by simp
  then have "rest = tl (take (Suc bs) (drop ?q ?C))" by (metis list.sel(3))
  also have "\<dots> = take bs (drop (Suc ?q) ?C)"
    by (simp add: tl_take drop_Suc tl_drop)
  finally have rest: "rest = take bs (drop (Suc ?q) ?C)" .
  have lr: "length rest = bs" using rest pd lt full by simp
  have q': "pos ds0 + nat (local_offset st + 1) = Suc ?q"
    using lo by (simp add: nat_add_distrib)
  show ?thesis
    unfolding st1 using lo cd rest lr pd full by (simp add: tracks_def q')
qed

lemma zsync_body_placed:
  assumes tr: "tracks ds0 bs (zsync_reseed bs st)"
    and pl: "\<forall>we \<in> set (entries (remote_hashes st)). placed md5 ds0 bs sigs we"
    and body: "zsync_body md5 bs st = Continue st' \<or> zsync_body md5 bs st = Break st'"
  shows "tracks ds0 bs (zsync_reseed bs st')
       \<and> (\<forall>we \<in> set (entries (remote_hashes st')). placed md5 ds0 bs sigs we)"
proof (cases "map_of (remote_hashes (zsync_reseed bs st)) (checksum (zsync_reseed bs st))")
  case None
  let ?s = "zsync_reseed bs st"
  from body None obtain st1 where nb: "next_byte bs (?s\<lparr>match := False\<rparr>) = Inr st1"
    and st': "(st' = st1 \<and> datastream st1 = None)
        \<or> (\<exists>oldbyte rest c a b. window st1 = oldbyte # rest
              \<and> st' = st1\<lparr>window := rest, local_offset := local_offset st1 + 1,
                     checksum := c, sum_a := a, sum_b := b\<rparr>)"
    by (auto simp: zsync_body_def Let_def split: sum.splits if_splits list.splits prod.splits)
  from next_byte_hashes [OF nb] have h1: "remote_hashes st1 = remote_hashes st" by simp
  from next_byte_match [OF nb] have m1: "\<not> match st1" by simp
  from st' have h: "remote_hashes st' = remote_hashes st" and m: "\<not> match st'"
    using h1 m1 by auto
  have "tracks ds0 bs st'"
  proof (cases "datastream st'")
    case None
    then show ?thesis by (simp add: tracks_def)
  next
    case (Some d')
    with st' obtain oldbyte rest c a b where win: "window st1 = oldbyte # rest"
      and eq: "st' = st1\<lparr>window := rest, local_offset := local_offset st1 + 1,
                     checksum := c, sum_a := a, sum_b := b\<rparr>"
      by auto
    from Some eq have "datastream st1 = Some d'" by simp
    from next_byte_tracks [OF tr nb this win] show ?thesis unfolding eq .
  qed
  with m h pl show ?thesis by simp
next
  case (Some bucket)
  let ?s = "zsync_reseed bs st"
  from body Some obtain bucket' hit d where
    sb: "scan_bucket (md5 (window ?s)) (local_offset ?s) bucket = Inr (bucket', hit)"
    and st': "st' = ?s\<lparr>remote_hashes := AList.update (checksum ?s) bucket' (remote_hashes ?s),
        match := (hit \<or> match ?s)\<rparr>"
    and d: "datastream ?s = Some d"
    by (auto simp: zsync_body_def Let_def split: sum.splits if_splits option.splits)
  have t: "tracks ds0 bs (zsync_reseed bs st')"
    by (rule tracks_reseed [OF tr]) (simp_all add: st')
  from tr d have lo: "0 \<le> local_offset ?s"
    and w: "window ?s = take bs (drop (pos ds0 + nat (local_offset ?s)) (contents ds0))"
    by (simp_all add: tracks_def)
  from Some have mo: "map_of (remote_hashes st) (checksum ?s) = Some bucket" by simp
  have "placed md5 ds0 bs sigs we"
    if we: "we \<in> set (entries (remote_hashes st'))" for we
  proof -
    from we have "we \<in> set (entries (AList.update (checksum ?s) bucket' (remote_hashes st)))"
      by (simp add: st')
    with entries_update_subset [of "checksum ?s" bucket' "remote_hashes st"]
    have "we \<in> set (entries (remote_hashes st)) \<or> we \<in> Pair (checksum ?s) ` set bucket'"
      by blast
    then show ?thesis
    proof
      assume "we \<in> set (entries (remote_hashes st))"
      with pl show ?thesis by blast
    next
      assume "we \<in> Pair (checksum ?s) ` set bucket'"
      then obtain e' where e': "e' \<in> set bucket'" and eq: "we = (checksum ?s, e')" by blast
      from scan_bucket_entries [OF sb e']
      show ?thesis
      proof
        assume "e' \<in> set bucket"
        with entries_bucket [OF mo] have "we \<in> set (entries (remote_hashes st))"
          unfolding eq by blast
        with pl show ?thesis by blast
      next
        assume "\<exists>ro. e' = Triple3 ro (md5 (window ?s)) (local_offset ?s)
            \<and> Pair2 ro (md5 (window ?s)) \<in> set bucket"
        then obtain ro where t3: "e' = Triple3 ro (md5 (window ?s)) (local_offset ?s)"
          and old: "Pair2 ro (md5 (window ?s)) \<in> set bucket"
          by blast
        from old entries_bucket [OF mo]
        have "(checksum ?s, Pair2 ro (md5 (window ?s))) \<in> set (entries (remote_hashes st))"
          by blast
        with pl have "placed md5 ds0 bs sigs (checksum ?s, Pair2 ro (md5 (window ?s)))"
          by blast
        then have "ro < length sigs" and "sigs ! ro = (checksum ?s, md5 (window ?s))"
          by (simp_all add: placed_def)
        then show ?thesis
          unfolding eq t3 using lo w by (simp add: placed_def)
      qed
    qed
  qed
  with t show ?thesis by blast
qed

lemma add_signature_entries:
  "set (entries (fst (add_signature (i, w, s) acc)))
     \<subseteq> insert (w, Pair2 i s) (set (entries (fst acc)))"
proof (cases "map_of (fst acc) w")
  case None
  then show ?thesis by (auto simp: add_signature_def)
next
  case (Some bucket)
  from entries_update_subset [of w "bucket @ [Pair2 i s]" "fst acc"] entries_bucket [OF Some]
  show ?thesis using Some by (auto simp: add_signature_def)
qed

lemma fold_add_signature_entries:
  "we \<in> set (entries (fst (fold add_signature items acc))) \<Longrightarrow>
     we \<in> set (entries (fst acc)) \<or> (\<exists>i w s. (i, w, s) \<in> set items \<and> we = (w, Pair2 i s))"
proof (induction items arbitrary: acc)
  case Nil
  then show ?case by simp
next
  case (Cons item items)
  obtain i w s where item: "item = (i, w, s)" by (cases item)
  from Cons.prems have "we \<in> set (entries (fst (fold add_signature items (add_signature item acc))))"
    by simp
  from Cons.IH [OF this]
  show ?case
  proof
    assume "we \<in> set (entries (fst (add_signature item acc)))"
    with add_signature_entries [of i w s acc] item
    have "we = (w, Pair2 i s) \<or> we \<in> set (entries (fst acc))" by auto
    then show ?thesis using item by auto
  next
    assume "\<exists>i w s. (i, w, s) \<in> set items \<and> we = (w, Pair2 i s)"
    then show ?thesis by auto
  qed
qed

lemma build_hashes_placed:
  assumes "we \<in> set (entries (fst (build_hashes sigs)))"
  shows "placed md5 ds0 bs sigs we"
proof -
  from fold_add_signature_entries [OF assms [unfolded build_hashes_def]]
  obtain i w s where in_e: "(i, w, s) \<in> set (enumerate 0 sigs)" and we: "we = (w, Pair2 i s)"
    by auto
  from in_e have "i < length sigs" and "sigs ! i = (w, s)"
    by (simp_all add: in_set_enumerate_eq)
  then show ?thesis by (simp add: we placed_def)
qed

lemma zsync_init_tracks:
  "tracks ds bs (zsync_reseed bs (zsync_init ds hashes bs))"
proof -
  obtain c a b where wk: "weakchecksum (take bs (drop (pos ds) (contents ds))) = (c, a, b)"
    by (cases "weakchecksum (take bs (drop (pos ds) (contents ds)))") auto
  then show ?thesis
    by (simp add: zsync_reseed_def zsync_init_def read_stream_def Let_def tracks_def)
qed

lemma zsync_scan_placed:
  assumes scan: "zsync_scan md5 fuel ds sigs bs = Some (Returned st)"
    and we: "we \<in> set (entries (remote_hashes st))"
  shows "placed md5 ds bs sigs we"
proof -
  let ?I = "\<lambda>st. tracks ds bs (zsync_reseed bs st)
      \<and> (\<forall>we \<in> set (entries (remote_hashes st)). placed md5 ds bs sigs we)"
  have "\<forall>we \<in> set (entries (remote_hashes st)). placed md5 ds bs sigs we"
  proof (rule iterate_invariant [where I = ?I and body = "zsync_body md5 bs"])
    fix s s' assume "?I s" and "zsync_body md5 bs s = Continue s'"
    then show "?I s'" using zsync_body_placed [of ds bs s md5 sigs s'] by blast
  next
    fix s s' assume "?I s" and "zsync_body md5 bs s = Break s'"
    then show "\<forall>we \<in> set (entries (remote_hashes s')). placed md5 ds bs sigs we"
      using zsync_body_placed [of ds bs s md5 sigs s'] by blast
  next
    show "?I (zsync_init ds (fst (build_hashes sigs)) bs)"
      using zsync_init_tracks [of ds bs "fst (build_hashes sigs)"]
        build_hashes_placed [of _ sigs md5 ds bs]
      by (simp add: zsync_init_def)
  next
    show "iterate (zsync_body md5 bs) fuel (zsync_init ds (fst (build_hashes sigs)) bs)
        = Some (Returned st)"
      using scan by (simp add: zsync_scan_def)
  qed
  with we show ?thesis by blast
qed

text \<open>
  Claim C10 as stated fails for the integer slots: \<^verbatim>\<open>local_offset\<close> starts at
  \<^verbatim>\<open>-blocksize\<close> and counts the bytes the scan has left behind, whatever the position of
  the stream was when the scan started. For the candidate \<^verbatim>\<open>[9,1,2]\<close> handed over at
  position 1 and the one signature of the block \<^verbatim>\<open>[1,2]\<close>, the slot of the block is the
  integer 0, while the block sits at byte 1 of the candidate: seeking to 0, as
  \<^verbatim>\<open>patchstream\<close> does, reads \<^verbatim>\<open>[9,1]\<close>.
\<close>

theorem int_slot_offset_counterexample:
  "zsync_delta id 2 \<lparr>contents = [9, 1, 2], pos = 1, closed = False\<rparr> [(262147, [1, 2])] 2
     = Some (Inr ([PInt 0], []))
   \<and> fst (read_stream 2 (seek 0 \<lparr>contents = [9, 1, 2], pos = 1, closed = False\<rparr>)) = [9, 1]
   \<and> fst (snd (patchstream \<lparr>contents = [9, 1, 2], pos = 1, closed = False\<rparr> []
        [PInt 0 :: byte list slot] 2)) = [9, 1]"
  by code_simp

text \<open>
  Claim C10, amended. Whenever \<^verbatim>\<open>zsync_delta\<close> returns a blueprint, it has one slot for
  every signature, and every slot \<open>i\<close> is either an integer or the 3-tuple of
  \<open>i * blocksize\<close> and the weak and strong value of signature \<open>i\<close>. The integer is not
  negative and counts from the position the candidate stream had when the scan started:
  seeking the candidate that many bytes past that position and reading \<open>blocksize\<close>
  bytes gives bytes whose strong hash is the one of signature \<open>i\<close> (so it is the byte
  offset to seek to when the scan started at position 0). And merging the output of
  \<^verbatim>\<open>get_blocks\<close> for the returned request list succeeds, keeps the length, puts the bytes
  of block \<open>i\<close> of the fetched stream into exactly the slots listed in \<open>to_request\<close>
  (which are the tuple slots) and leaves every other slot as it was.
\<close>

theorem merge_fills_requested_slots:
  assumes "zsync_delta md5 fuel ds sigs blocksize = Some (Inr (instructions, to_request))"
  shows "length instructions = length sigs
       \<and> (\<forall>i < length instructions.
            (\<exists>off. instructions ! i = PInt off \<and> i \<notin> set to_request \<and> 0 \<le> off
                \<and> md5 (fst (read_stream blocksize (seek (pos ds + nat off) ds)))
                    = snd (sigs ! i))
          \<or> (instructions ! i
                = PTuple3 (int i * int blocksize) (fst (sigs ! i)) (snd (sigs ! i))
                \<and> i \<in> set to_request))
       \<and> (\<exists>merged.
             merge_instructions_blocks instructions
               (fst (get_blocks src to_request blocksize)) blocksize = Inr merged
           \<and> length merged = length instructions
           \<and> (\<forall>i < length instructions.
                 merged ! i =
                   (if i \<in> set to_request
                    then PBytes (take blocksize (drop (i * blocksize) (contents src)))
                    else instructions ! i)))"
proof -
  let ?tup = "\<lambda>remote_block weak strong. PTuple3 (int remote_block * int blocksize) weak strong"
  from assms obtain st where scan: "zsync_scan md5 fuel ds sigs blocksize = Some (Returned st)"
    and place: "place_all ?tup (remote_hashes st) (replicate (length sigs) PNone, [])
        = Inr (instructions, to_request)"
    by (rule zsync_delta_cases)
  note len = blueprint_length [OF scan place]
  have slots: "(\<exists>weak strong. instructions ! i = PTuple3 (int i * int blocksize) weak strong
                \<and> count_list to_request i = 1)
             \<or> (\<exists>off. instructions ! i = PInt off \<and> i \<notin> set to_request)"
    if "i < length sigs" for i
    using blueprint_slots [OF scan place that] .
  have in_req: "i \<in> set to_request" if "count_list to_request i = 1" for i
    using that count_list_0_iff [of to_request i] by simp
  have pinned: "(\<exists>off. instructions ! i = PInt off \<and> i \<notin> set to_request \<and> 0 \<le> off
                \<and> md5 (fst (read_stream blocksize (seek (pos ds + nat off) ds)))
                    = snd (sigs ! i))
          \<or> (instructions ! i
                = PTuple3 (int i * int blocksize) (fst (sigs ! i)) (snd (sigs ! i))
                \<and> i \<in> set to_request)"
    if i: "i < length sigs" for i
  proof -
    from blueprint_of_scan [OF scan, of ?tup] place
    have hit: "\<forall>we \<in> set (entries (remote_hashes st)).
        instructions ! entry_block (snd we) = slot_of ?tup we"
      by auto
    from i scan_table_distinct(2) [OF scan]
    have "i \<in> set (map (entry_block \<circ> snd) (entries (remote_hashes st)))"
      by (simp add: table_blocks_def)
    then obtain w e where we: "(w, e) \<in> set (entries (remote_hashes st))"
      and ei: "entry_block e = i"
      by auto
    from hit we ei have slot: "instructions ! i = slot_of ?tup (w, e)" by force
    from zsync_scan_placed [OF scan we] have pl: "placed md5 ds blocksize sigs (w, e)" .
    show ?thesis
    proof (cases e)
      case (Pair2 b s)
      with ei pl have "sigs ! i = (w, s)" by (simp add: placed_def)
      with slot Pair2 ei
      have t: "instructions ! i
          = PTuple3 (int i * int blocksize) (fst (sigs ! i)) (snd (sigs ! i))"
        by simp
      with slots [OF i] in_req have "i \<in> set to_request" by auto
      with t show ?thesis by blast
    next
      case (Triple3 b s off)
      with ei pl have s: "sigs ! i = (w, s)" and off: "0 \<le> off"
        and m: "s = md5 (take blocksize (drop (pos ds + nat off) (contents ds)))"
        by (simp_all add: placed_def)
      from slot Triple3 have t: "instructions ! i = PInt off" by simp
      with slots [OF i] have "i \<notin> set to_request" by auto
      moreover have "md5 (fst (read_stream blocksize (seek (pos ds + nat off) ds)))
          = snd (sigs ! i)"
        using s m by (simp add: read_stream_def seek_def Let_def)
      ultimately show ?thesis using t off by blast
    qed
  qed
  note d = blueprint_requests_distinct(1) [OF scan place]
  note sub = blueprint_requests_distinct(2) [OF scan place]
  have req: "\<forall>r \<in> set to_request. r < length instructions
      \<and> (\<exists>w s. instructions ! r = PTuple3 (int r * int blocksize) w s)"
  proof
    fix r assume r: "r \<in> set to_request"
    with sub have lt: "r < length sigs" by auto
    from slots [OF lt] r show "r < length instructions
        \<and> (\<exists>w s. instructions ! r = PTuple3 (int r * int blocksize) w s)"
      using lt len by auto
  qed
  from merge_requested [OF d req, of "\<lambda>i. take blocksize (drop (i * blocksize) (contents src))"]
  have "\<exists>merged.
             merge_instructions_blocks instructions
               (fst (get_blocks src to_request blocksize)) blocksize = Inr merged
           \<and> length merged = length instructions
           \<and> (\<forall>i < length instructions.
                 merged ! i =
                   (if i \<in> set to_request
                    then PBytes (take blocksize (drop (i * blocksize) (contents src)))
                    else instructions ! i))"
    by (simp add: get_blocks_items)
  with pinned len show ?thesis by simp
qed

theorem merge_fills_requested_slots_witness:
  "zsync_delta id 3 \<lparr>contents = [7, 1, 2], pos = 0, closed = False\<rparr>
      [(262147, [1, 2]), (655367, [3, 4])] 2
     = Some (Inr ([PInt 1, PTuple3 2 655367 [3, 4]], [1]))
   \<and> id (fst (read_stream 2 (seek (0 + nat 1) \<lparr>contents = [7, 1, 2], pos = 0, closed = False\<rparr>)))
     = [1, 2]
   \<and> merge_instructions_blocks [PInt 1, PTuple3 2 655367 [3, 4 :: byte]]
        (fst (get_blocks \<lparr>contents = [1, 2, 3, 4], pos = 0, closed = False\<rparr> [1] 2)) 2
     = Inr [PInt 1, PBytes [3, 4]]"
proof -
  let ?ds = "\<lparr>contents = [7, 1, 2 :: byte], pos = 0, closed = False\<rparr>"
  let ?src = "\<lparr>contents = [1, 2, 3, 4 :: byte], pos = 0, closed = False\<rparr>"
  have v: "zsync_delta id 3 ?ds [(262147, [1, 2]), (655367, [3, 4])] 2
     = Some (Inr ([PInt 1, PTuple3 2 655367 [3, 4]], [1]))"
    by code_simp
  have m: "merge_instructions_blocks [PInt 1, PTuple3 2 655367 [3, 4 :: byte]]
        (fst (get_blocks ?src [1] 2)) 2
     = Inr [PInt 1, PBytes [3, 4]]"
    by code_simp
  from merge_fills_requested_slots [OF v, of ?src]
  have "(\<exists>off. [PInt 1, PTuple3 2 655367 [3, 4 :: byte]] ! 0 = PInt off
            \<and> id (fst (read_stream 2 (seek (pos ?ds + nat off) ?ds)))
                = snd ([(262147 :: int, [1, 2 :: byte]), (655367, [3, 4])] ! 0))
        \<or> [PInt 1, PTuple3 2 655367 [3, 4 :: byte]] ! 0
            = PTuple3 (int 0 * int 2) (fst ([(262147 :: int, [1, 2 :: byte]), (655367, [3, 4])] ! 0))
                (snd ([(262147 :: int, [1, 2 :: byte]), (655367, [3, 4])] ! 0))"
    by auto
  then have "id (fst (read_stream 2 (seek (0 + nat 1) ?ds))) = [1, 2]"
    by auto
  with v m show ?thesis by blast
qed
section \<open>Where the blueprint scan leaves the specified behaviour\<close>

lemma weakchecksum_12: "weakchecksum [1, 2] = (262147, 3, 4)"
  by code_simp

lemma build_hashes_single: "build_hashes [(w, s)] = ([(w, [Pair2 0 s])], 1)"
  by (simp add: build_hashes_def enumerate_eq_zip add_signature_def)

text \<open>
  Claim C5 (not met by the code). The candidate \<^verbatim>\<open>[1,2,1,2]\<close> holds the only baseline
  block \<^verbatim>\<open>[1,2]\<close> twice (block size 2). The first occurrence turns the bucket entry into a
  3-tuple; at the second occurrence the \<^verbatim>\<open>for\<close> statement unpacks that 3-tuple into two
  names and the scan ends with \<^verbatim>\<open>ValueError\<close>, whatever the strong hash function is.
\<close>

theorem second_occurrence_raises:
  "zsync_delta md5 2 \<lparr>contents = [1, 2, 1, 2], pos = 0, closed = False\<rparr>
      [(262147, md5 [1, 2])] 2 = Some (Inl ValueError)
   \<and> zsyncdelta md5 2 \<lparr>contents = [1, 2, 1, 2], pos = 0, closed = False\<rparr>
      [(262147, md5 [1, 2])] 2 = Some (Inl ValueError)
   \<and> fst (block_checksums md5 \<lparr>contents = [1, 2], pos = 0, closed = False\<rparr> 2)
      = [(262147, md5 [1, 2])]"
proof -
  let ?ds = "\<lparr>contents = [1, 2, 1, 2], pos = 0, closed = False\<rparr>"
  let ?t = "[(262147 :: int, [Pair2 0 (md5 [1, 2])])]"
  let ?st1 = "\<lparr>match = True, datastream = Some \<lparr>contents = [1, 2, 1, 2], pos = 2, closed = False\<rparr>,
      window = [1, 2],
      checksum = 262147, sum_a = 3, sum_b = 4, newbyte = 0, tailsize = 0,
      remote_hashes = [(262147, [Triple3 0 (md5 [1, 2]) 0])], local_offset = 0\<rparr>"
  have 1: "zsync_body md5 2 (zsync_init ?ds ?t 2) = Continue ?st1"
    by (simp add: zsync_body_def zsync_init_def zsync_reseed_def read_stream_def Let_def
        weakchecksum_12)
  have 2: "zsync_body md5 2 ?st1 = Raise ValueError (zsync_reseed 2 ?st1)"
    by (simp add: zsync_body_def zsync_reseed_def read_stream_def Let_def weakchecksum_12)
  have scan: "zsync_scan md5 2 ?ds [(262147, md5 [1, 2])] 2
      = Some (Raised ValueError (zsync_reseed 2 ?st1))"
    by (simp add: zsync_scan_def build_hashes_single iterate_numeral iterate_one 1 2)
  have sig: "fst (block_checksums md5 \<lparr>contents = [1, 2], pos = 0, closed = False\<rparr> 2)
      = [(262147, md5 [1, 2])]"
    by (simp add: block_checksums_step block_checksums_at_end weakchecksum_12)
  show ?thesis
    using scan sig by (simp add: zsync_delta_def zsyncdelta_def)
qed

lemma weakchecksum_510: "weakchecksum [5, 1, 0] = (1114118, 6, 17)"
  by code_simp

lemma weakchecksum_101: "weakchecksum [1, 0, 1] = (262146, 2, 4)"
  by code_simp

lemma weakchecksum_020: "weakchecksum [0, 2, 0] = (262146, 2, 4)"
  by code_simp

lemma weakchecksum_010: "weakchecksum [0, 1, 0] = (131073, 1, 2)"
  by code_simp

lemma weakchecksum_0: "weakchecksum [0] = (0, 0, 0)"
  by code_simp

lemma rolling_5_1: "rollingchecksum 5 1 6 17 3 = (262146, 2, 4)"
  by code_simp

text \<open>
  Claim C3 (not met by the code). The blocks \<^verbatim>\<open>[1,0,1]\<close> and \<^verbatim>\<open>[0,2,0]\<close> have the same weak
  checksum 262146. With a strong hash that tells them apart:
  \<^item> candidate \<^verbatim>\<open>[5,1,0,1]\<close> against the baseline \<^verbatim>\<open>[0,2,0]\<close> (block size 3): after one byte
    shift the window is \<^verbatim>\<open>[1,0,1]\<close>, a weak hit without a strong match; the loop body leaves
    the state as it is, so the scan returns for no bound on the number of passes;
  \<^item> candidate \<^verbatim>\<open>[1,0,1,0]\<close> against the baseline \<^verbatim>\<open>[0,2,0,0,1,0]\<close>: the first window is
    such a weak hit while \<open>match\<close> still holds, the window is refilled from the stream
    instead of shifted by one byte, and block 1, present at offset 1, is not found.
\<close>

theorem weak_hit_without_strong_match:
  assumes "md5 [1, 0, 1] \<noteq> md5 [0, 2, 0]"
  shows "zsync_delta md5 fuel \<lparr>contents = [5, 1, 0, 1], pos = 0, closed = False\<rparr>
           [(262146, md5 [0, 2, 0])] 3 = None
       \<and> zsyncdelta md5 fuel \<lparr>contents = [5, 1, 0, 1], pos = 0, closed = False\<rparr>
           [(262146, md5 [0, 2, 0])] 3 = None
       \<and> zsync_delta md5 2 \<lparr>contents = [1, 0, 1, 0], pos = 0, closed = False\<rparr>
           [(262146, md5 [0, 2, 0]), (131073, md5 [0, 1, 0])] 3
         = Some (Inr ([PTuple3 0 262146 (md5 [0, 2, 0]), PTuple3 3 131073 (md5 [0, 1, 0])], [0, 1]))"
proof -
  let ?ds = "\<lparr>contents = [5, 1, 0, 1], pos = 0, closed = False\<rparr>"
  let ?t = "[(262146 :: int, [Pair2 0 (md5 [0, 2, 0])])]"
  let ?st1 = "\<lparr>match = False,
      datastream = Some \<lparr>contents = [5, 1, 0, 1], pos = 4, closed = False\<rparr>,
      window = [1, 0, 1], checksum = 262146, sum_a = 2, sum_b = 4, newbyte = 1, tailsize = 0,
      remote_hashes = ?t, local_offset = 1\<rparr>"
  have 1: "zsync_body md5 3 (zsync_init ?ds ?t 3) = Continue ?st1"
    by (simp add: zsync_body_def zsync_init_def zsync_reseed_def read_stream_def Let_def
        next_byte_def weakchecksum_510 rolling_5_1)
  have 2: "zsync_body md5 3 ?st1 = Continue ?st1"
    using assms
    by (simp add: zsync_body_def zsync_reseed_def Let_def)
  have "iterate (zsync_body md5 3) fuel (zsync_init ?ds ?t 3) = None"
  proof (cases fuel)
    case 0
    then show ?thesis by simp
  next
    case (Suc n)
    have "iterate (zsync_body md5 3) n ?st1 = None"
      using 2 by (rule iterate_fixed_point)
    then show ?thesis by (simp add: Suc 1)
  qed
  then have stall: "zsync_scan md5 fuel ?ds [(262146, md5 [0, 2, 0])] 3 = None"
    by (simp add: zsync_scan_def build_hashes_single)
  let ?ds' = "\<lparr>contents = [1, 0, 1, 0], pos = 0, closed = False\<rparr>"
  let ?u = "[(262146 :: int, [Pair2 0 (md5 [0, 2, 0])]), (131073, [Pair2 (Suc 0) (md5 [0, 1, 0])])]"
  let ?su1 = "\<lparr>match = True,
      datastream = Some \<lparr>contents = [1, 0, 1, 0], pos = 3, closed = False\<rparr>,
      window = [1, 0, 1], checksum = 262146, sum_a = 2, sum_b = 4, newbyte = 0, tailsize = 0,
      remote_hashes = ?u, local_offset = 0\<rparr>"
  let ?su2 = "\<lparr>match = False, datastream = None,
      window = [0], checksum = 0, sum_a = 0, sum_b = 0, newbyte = 0, tailsize = Suc 0,
      remote_hashes = ?u, local_offset = 3\<rparr>"
  have b: "build_hashes [(262146, md5 [0, 2, 0]), (131073, md5 [0, 1, 0])] = (?u, 2)"
    by (simp add: build_hashes_def enumerate_eq_zip add_signature_def upt_rec numeral_2_eq_2)
  have 3: "zsync_body md5 3 (zsync_init ?ds' ?u 3) = Continue ?su1"
    using assms
    by (simp add: zsync_body_def zsync_init_def zsync_reseed_def read_stream_def Let_def
        weakchecksum_101)
  have 4: "zsync_body md5 3 ?su1 = Break ?su2"
    by (simp add: zsync_body_def zsync_reseed_def read_stream_def Let_def
        next_byte_def weakchecksum_0 tell_def)
  have "zsync_scan md5 2 ?ds' [(262146, md5 [0, 2, 0]), (131073, md5 [0, 1, 0])] 3
      = Some (Returned ?su2)"
    by (simp add: zsync_scan_def b iterate_numeral iterate_one 3 4)
  then have reseed: "zsync_delta md5 2 ?ds' [(262146, md5 [0, 2, 0]), (131073, md5 [0, 1, 0])] 3
         = Some (Inr ([PTuple3 0 262146 (md5 [0, 2, 0]), PTuple3 3 131073 (md5 [0, 1, 0])], [0, 1]))"
    by (simp add: zsync_delta_def get_instructions_def b numeral_2_eq_2)
  show ?thesis
    using stall reseed by (simp add: zsync_delta_def zsyncdelta_def)
qed

theorem weak_hit_without_strong_match_witness:
  "(id [1, 0, 1 :: byte] \<noteq> id [0, 2, 0])
   \<and> zsync_delta id 50 \<lparr>contents = [5, 1, 0, 1], pos = 0, closed = False\<rparr>
           [(262146, id [0, 2, 0])] 3 = None
   \<and> fst (block_checksums id \<lparr>contents = [0, 2, 0, 0, 1, 0], pos = 0, closed = False\<rparr> 3)
       = [(262146, id [0, 2, 0]), (131073, id [0, 1, 0])]"
proof -
  have h: "id [1, 0, 1 :: byte] \<noteq> id [0, 2, 0]" by simp
  have s: "fst (block_checksums id \<lparr>contents = [0, 2, 0, 0, 1, 0], pos = 0, closed = False\<rparr> 3)
       = [(262146, id [0, 2, 0]), (131073, id [0, 1, 0])]"
    by code_simp
  from weak_hit_without_strong_match [OF h, of 50] h s show ?thesis by blast
qed

section \<open>How the scan loops end\<close>

lemma read_stream_follows:
  assumes "contents d = contents ds0" and "closed d = closed ds0"
    and "pos ds0 \<le> pos d" and "pos d \<le> exhausted_at ds0"
    and "read_stream n d = (x, d')"
  shows "contents d' = contents ds0 \<and> closed d' = closed ds0
       \<and> pos ds0 \<le> pos d' \<and> pos d' \<le> exhausted_at ds0
       \<and> (x = [] \<and> 0 < n \<longrightarrow> pos d' = exhausted_at ds0)"
proof -
  from assms(5) have d': "d' = d\<lparr>pos := pos d + length x\<rparr>"
    and x: "x = take n (drop (pos d) (contents d))"
    by (auto simp: read_stream_def Let_def)
  have "pos d + length x \<le> exhausted_at ds0"
    using assms(1,4) by (auto simp: x exhausted_at_def min_def)
  moreover have "pos d = exhausted_at ds0" if "x = []" "0 < n"
    using that assms(1,3,4) by (auto simp: x exhausted_at_def max_def)
  ultimately show ?thesis
    using assms(1,2,3) by (auto simp: d')
qed

lemma zsync_reseed_follows:
  "follows ds0 bs st \<Longrightarrow> follows ds0 bs (zsync_reseed bs st)"
proof (cases "datastream st")
  case None
  then show "follows ds0 bs st \<Longrightarrow> ?thesis" by simp
next
  case (Some d)
  assume f: "follows ds0 bs st"
  show ?thesis
  proof (cases "match st")
    case False
    with f show ?thesis by simp
  next
    case True
    obtain x d' where r: "read_stream bs d = (x, d')" by (cases "read_stream bs d")
    obtain c a b where w: "weakchecksum x = (c, a, b)" by (cases "weakchecksum x") auto
    from f Some have "contents d = contents ds0" "closed d = closed ds0"
      "pos ds0 \<le> pos d" "pos d \<le> exhausted_at ds0"
      by (simp_all add: follows_def)
    from read_stream_follows [OF this r] show ?thesis
      using Some True r w by (simp add: zsync_reseed_def follows_def)
  qed
qed

lemma rsync_reseed_follows:
  "follows ds0 bs st \<Longrightarrow> follows ds0 bs (rsync_reseed bs st)"
proof (cases "datastream st")
  case None
  then show "follows ds0 bs st \<Longrightarrow> ?thesis" by (simp add: rsync_reseed_def)
next
  case (Some d)
  assume f: "follows ds0 bs st"
  show ?thesis
  proof (cases "match st")
    case False
    with f Some show ?thesis by (simp add: rsync_reseed_def)
  next
    case True
    obtain x d' where r: "read_stream bs d = (x, d')" by (cases "read_stream bs d")
    obtain c a b where w: "weakchecksum x = (c, a, b)" by (cases "weakchecksum x") auto
    from f Some have "contents d = contents ds0" "closed d = closed ds0"
      "pos ds0 \<le> pos d" "pos d \<le> exhausted_at ds0"
      by (simp_all add: follows_def)
    from read_stream_follows [OF this r] show ?thesis
      using Some True r w by (simp add: rsync_reseed_def follows_def)
  qed
qed

lemma next_byte_follows:
  assumes "follows ds0 bs st" and "next_byte bs st = Inr st'"
  shows "follows ds0 bs st'"
proof (cases "datastream st")
  case None
  with assms show ?thesis by (simp add: next_byte_def)
next
  case (Some d)
  obtain x d' where r: "read_stream 1 d = (x, d')" by (cases "read_stream 1 d")
  from assms(1) Some have "contents d = contents ds0" "closed d = closed ds0"
    "pos ds0 \<le> pos d" "pos d \<le> exhausted_at ds0"
    by (simp_all add: follows_def)
  note rf = read_stream_follows [OF this r]
  show ?thesis
  proof (cases x)
    case Nil
    with assms(2) Some r rf show ?thesis
      by (auto simp: next_byte_def follows_def tell_def split: if_splits)
  next
    case (Cons c cs)
    with assms(2) Some r rf show ?thesis
      by (auto simp: next_byte_def follows_def)
  qed
qed

lemma follows_cong:
  "datastream st' = datastream st \<Longrightarrow> tailsize st' = tailsize st \<Longrightarrow>
     follows ds0 bs st' = follows ds0 bs st"
  by (simp add: follows_def split: option.splits)

lemma zsync_body_follows:
  assumes f: "follows ds0 bs st" and o: "\<not> closed ds0"
  shows "(zsync_body md5 bs st = Continue st' \<longrightarrow> follows ds0 bs st')
       \<and> (zsync_body md5 bs st = Break st' \<longrightarrow>
             datastream st' = None \<and> length (window st') \<le> tailsize st'
           \<and> tailsize st' = exhausted_at ds0 mod bs)"
proof -
  let ?st = "zsync_reseed bs st"
  note f1 = zsync_reseed_follows [OF f]
  show ?thesis
  proof (cases "map_of (remote_hashes ?st) (checksum ?st)")
    case (Some bucket)
    show ?thesis
    proof (cases "scan_bucket (md5 (window ?st)) (local_offset ?st) bucket")
      case (Inl e)
      with Some show ?thesis by (simp add: zsync_body_def Let_def)
    next
      case (Inr r)
      obtain bucket' hit where r: "r = (bucket', hit)" by (cases r)
      show ?thesis
      proof (cases "datastream ?st")
        case None
        with Some Inr r show ?thesis by (simp add: zsync_body_def Let_def)
      next
        case ds: (Some d)
        with f1 o have "\<not> closed d" by (simp add: follows_def)
        with Some Inr r ds f1 show ?thesis
          by (auto simp: zsync_body_def Let_def follows_def split: option.splits)
      qed
    qed
  next
    case None
    show ?thesis
    proof (cases "next_byte bs (?st\<lparr>match := False\<rparr>)")
      case (Inl e)
      with None show ?thesis by (simp add: zsync_body_def Let_def)
    next
      case (Inr st1)
      have "follows ds0 bs (?st\<lparr>match := False\<rparr>)"
        using f1 by (simp add: follows_cong [of "?st\<lparr>match := False\<rparr>" ?st])
      from next_byte_follows [OF this Inr] have f2: "follows ds0 bs st1" .
      show ?thesis
        using None Inr f2
        by (auto simp: zsync_body_def Let_def follows_def
            split: list.splits prod.splits option.splits)
    qed
  qed
qed

lemma rsync_shift_follows:
  assumes f: "follows ds0 bs st"
  shows "(rsync_shift bs mb st = Continue st' \<longrightarrow> follows ds0 bs st')
       \<and> (rsync_shift bs mb st = Break st' \<longrightarrow>
             datastream st' = None
           \<and> int (length (window st')) - int (window_offset st') \<le> int (tailsize st')
           \<and> tailsize st' = exhausted_at ds0 mod bs)"
proof (cases "next_byte bs (st\<lparr>match := False\<rparr>)")
  case (Inl e)
  then show ?thesis by (simp add: rsync_shift_def)
next
  case (Inr st1)
  have "follows ds0 bs (st\<lparr>match := False\<rparr>)"
    using f by (simp add: follows_cong [of "st\<lparr>match := False\<rparr>" st])
  from next_byte_follows [OF this Inr] have f2: "follows ds0 bs st1" .
  show ?thesis
    using Inr f2
    by (auto simp: rsync_shift_def Let_def follows_def
        split: prod.splits if_splits option.splits)
qed

lemma rsync_body_follows:
  assumes f: "follows ds0 bs st" and o: "\<not> closed ds0"
  shows "(rsync_body md5 sigs bs mb st = Continue st' \<longrightarrow> follows ds0 bs st')
       \<and> (rsync_body md5 sigs bs mb st = Break st' \<longrightarrow>
             datastream st' = None
           \<and> int (length (window st')) - int (window_offset st') \<le> int (tailsize st')
           \<and> tailsize st' = exhausted_at ds0 mod bs)"
proof -
  let ?st = "rsync_reseed bs st"
  note f1 = rsync_reseed_follows [OF f]
  have m: "(rsync_matched i ?st = Continue st' \<longrightarrow> follows ds0 bs st')
      \<and> rsync_matched i ?st \<noteq> Break st'" for i
    using f1 o
    by (auto simp: rsync_matched_def Let_def follows_def split: option.splits if_splits)
  show ?thesis
    using m rsync_shift_follows [OF f1, of mb st']
    by (auto simp: rsync_body_def Let_def split: option.splits prod.splits if_splits)
qed

text \<open>
  Claim C4 as stated fails: both loops test \<^verbatim>\<open>datastream.closed\<close> after a weak hit and
  leave when it holds. A stream object over \<^verbatim>\<open>[1,2,3,4]\<close> that reports itself closed,
  scanned against the signatures of the same bytes (block size 2): the loop ends in its
  first pass with the stream still there at position 2 of 4 and a window of 2 bytes.
\<close>

theorem closed_stream_ends_scan_counterexample:
  "zsync_scan id 1 \<lparr>contents = [1, 2, 3, 4], pos = 0, closed = True\<rparr>
      [(262147, [1, 2]), (655367, [3, 4])] 2
   = Some (Returned
       \<lparr>match = True,
        datastream = Some \<lparr>contents = [1, 2, 3, 4], pos = 2, closed = True\<rparr>,
        window = [1, 2], checksum = 262147, sum_a = 3, sum_b = 4, newbyte = 0, tailsize = 0,
        remote_hashes = [(262147, [Triple3 0 [1, 2] 0]), (655367, [Pair2 1 [3, 4]])],
        local_offset = 0\<rparr>)"
  by code_simp

text \<open>
  Claim C4, amended. For every candidate stream that does not report itself closed:
  whenever the scan loop of the blueprint scan or of the streaming delta ends without an
  exception, the stream has been exhausted and dropped, the remaining window is at most
  \<open>tailsize\<close> long, and \<open>tailsize\<close> is the position at which the stream was exhausted,
  modulo the block size.
\<close>

theorem scan_ends_by_tail_rule:
  assumes "\<not> closed ds"
  shows "(zsync_scan md5 fuel ds sigs blocksize = Some (Returned st) \<longrightarrow>
            datastream st = None \<and> length (window st) \<le> tailsize st
          \<and> tailsize st = exhausted_at ds mod blocksize)
       \<and> (rsync_scan md5 fuel ds sigs blocksize max_buffer = Some (Returned rst) \<longrightarrow>
            datastream rst = None
          \<and> int (length (window rst)) - int (window_offset rst) \<le> int (tailsize rst)
          \<and> tailsize rst = exhausted_at ds mod blocksize)"
proof (intro conjI impI)
  assume r: "zsync_scan md5 fuel ds sigs blocksize = Some (Returned st)"
  have i: "follows ds blocksize (zsync_init ds (fst (build_hashes sigs)) blocksize)"
    by (simp add: follows_def zsync_init_def exhausted_at_def)
  have "datastream st = None \<and> length (window st) \<le> tailsize st
      \<and> tailsize st = exhausted_at ds mod blocksize"
  proof (rule iterate_invariant [where I = "follows ds blocksize"
          and body = "zsync_body md5 blocksize", OF _ _ i r [unfolded zsync_scan_def]])
    fix s s' assume "follows ds blocksize s" and "zsync_body md5 blocksize s = Continue s'"
    then show "follows ds blocksize s'"
      using zsync_body_follows [OF _ assms, of blocksize s md5 s'] by blast
  next
    fix s s' assume "follows ds blocksize s" and "zsync_body md5 blocksize s = Break s'"
    then show "datastream s' = None \<and> length (window s') \<le> tailsize s'
        \<and> tailsize s' = exhausted_at ds mod blocksize"
      using zsync_body_follows [OF _ assms, of blocksize s md5 s'] by blast
  qed
  then show "datastream st = None" "length (window st) \<le> tailsize st"
    "tailsize st = exhausted_at ds mod blocksize" by simp_all
next
  assume r: "rsync_scan md5 fuel ds sigs blocksize max_buffer = Some (Returned rst)"
  have i: "follows ds blocksize (rsync_init ds)"
    by (simp add: follows_def rsync_init_def exhausted_at_def)
  have "datastream rst = None
      \<and> int (length (window rst)) - int (window_offset rst) \<le> int (tailsize rst)
      \<and> tailsize rst = exhausted_at ds mod blocksize"
  proof (rule iterate_invariant [where I = "follows ds blocksize"
          and body = "rsync_body md5 (signature_dict sigs) blocksize max_buffer",
          OF _ _ i r [unfolded rsync_scan_def]])
    fix s s' assume "follows ds blocksize s"
      and "rsync_body md5 (signature_dict sigs) blocksize max_buffer s = Continue s'"
    then show "follows ds blocksize s'"
      using rsync_body_follows [OF _ assms, of blocksize s md5 "signature_dict sigs" max_buffer s']
      by blast
  next
    fix s s' assume "follows ds blocksize s"
      and "rsync_body md5 (signature_dict sigs) blocksize max_buffer s = Break s'"
    then show "datastream s' = None
        \<and> int (length (window s')) - int (window_offset s') \<le> int (tailsize s')
        \<and> tailsize s' = exhausted_at ds mod blocksize"
      using rsync_body_follows [OF _ assms, of blocksize s md5 "signature_dict sigs" max_buffer s']
      by blast
  qed
  then show "datastream rst = None"
    "int (length (window rst)) - int (window_offset rst) \<le> int (tailsize rst)"
    "tailsize rst = exhausted_at ds mod blocksize" by simp_all
qed

theorem scan_ends_by_tail_rule_witness:
  "\<not> closed \<lparr>contents = [1, 2, 9], pos = 0, closed = False\<rparr>
   \<and> zsync_scan id 2 \<lparr>contents = [1, 2, 9], pos = 0, closed = False\<rparr>
        [(262147, [1, 2]), (655367, [3, 4])] 2
     = Some (Returned
         \<lparr>match = False, datastream = None, window = [9], checksum = 589833, sum_a = 9,
          sum_b = 9, newbyte = 0, tailsize = 1,
          remote_hashes = [(262147, [Triple3 0 [1, 2] 0]), (655367, [Pair2 1 [3, 4]])],
          local_offset = 2\<rparr>)
   \<and> (1 :: nat) = exhausted_at \<lparr>contents = [1, 2, 9], pos = 0, closed = False\<rparr> mod 2"
proof -
  have c: "\<not> closed \<lparr>contents = [1, 2, 9], pos = 0, closed = False\<rparr>" by simp
  have v: "zsync_scan id 2 \<lparr>contents = [1, 2, 9], pos = 0, closed = False\<rparr>
        [(262147, [1, 2]), (655367, [3, 4])] 2
     = Some (Returned
         \<lparr>match = False, datastream = None, window = [9], checksum = 589833, sum_a = 9,
          sum_b = 9, newbyte = 0, tailsize = 1,
          remote_hashes = [(262147, [Triple3 0 [1, 2] 0]), (655367, [Pair2 1 [3, 4]])],
          local_offset = 2\<rparr>)"
    by code_simp
  from scan_ends_by_tail_rule [OF c, of id 2 "[(262147, [1, 2]), (655367, [3, 4])]" 2] v c
  show ?thesis by (simp add: exhausted_at_def)
qed

section \<open>The streaming delta and its patch\<close>

subsection \<open>Applying a delta\<close>

lemma expand_append [simp]: "expand B bs (xs @ ys) = expand B bs xs @ expand B bs ys"
  by (induction B bs xs rule: expand.induct) simp_all

lemma patch_items_expand:
  "0 < bs \<Longrightarrow> \<exists>instream'. patch_items instream out items bs
      = (instream', out @ expand (contents instream) bs items, None)
      \<and> contents instream' = contents instream"
proof (induction items arbitrary: instream out)
  case Nil
  then show ?case by simp
next
  case (Cons item items)
  show ?case
  proof (cases item)
    case (Literal d)
    from Cons.IH [OF Cons.prems, of instream "out @ d"] show ?thesis
      by (auto simp: Literal)
  next
    case (BlockRef n)
    let ?x = "take bs (drop (n * bs) (contents instream))"
    let ?s = "instream\<lparr>pos := n * bs + length ?x\<rparr>"
    have r: "read_stream bs (seek (n * bs) instream) = (?x, ?s)"
      by (simp add: read_stream_def seek_def Let_def)
    from Cons.IH [OF Cons.prems, of ?s "out @ ?x"] show ?thesis
      using Cons.prems by (auto simp: BlockRef r)
  qed
qed

lemma patchstream2_expand:
  assumes "0 < bs"
  shows "fst (snd (patchstream2 instream out (items, e) bs))
           = out @ expand (contents instream) bs items
       \<and> snd (snd (patchstream2 instream out (items, e) bs)) = e"
proof -
  from patch_items_expand [OF assms, of instream out items] obtain instream' where
    "patch_items instream out items bs
      = (instream', out @ expand (contents instream) bs items, None)"
    by blast
  then show ?thesis by (simp add: patchstream2_def)
qed

subsection \<open>The signature dict\<close>

lemma signature_dict_snoc:
  "signature_dict (sigs @ [(w, s)]) = (signature_dict sigs)(w \<mapsto> (length sigs, s))"
  by (simp add: signature_dict_def enumerate_append_eq)

lemma signature_dict_Some:
  "signature_dict sigs w = Some (j, s) \<Longrightarrow> j < length sigs \<and> sigs ! j = (w, s)"
proof (induction sigs arbitrary: j s rule: rev_induct)
  case Nil
  then show ?case by (simp add: signature_dict_def)
next
  case (snoc x sigs)
  obtain w' s' where x: "x = (w', s')" by (cases x)
  show ?case
  proof (cases "w = w'")
    case True
    with snoc.prems show ?thesis
      by (auto simp: x signature_dict_snoc)
  next
    case False
    with snoc.prems have "signature_dict sigs w = Some (j, s)"
      by (simp add: x signature_dict_snoc)
    from snoc.IH [OF this] show ?thesis
      by (simp add: nth_append)
  qed
qed

lemma signature_dict_dom:
  "i < length sigs \<Longrightarrow> \<exists>j s. signature_dict sigs (fst (sigs ! i)) = Some (j, s)"
proof (induction sigs arbitrary: i rule: rev_induct)
  case Nil
  then show ?case by simp
next
  case (snoc x sigs)
  obtain w' s' where x: "x = (w', s')" by (cases x)
  show ?case
  proof (cases "i < length sigs")
    case True
    from snoc.IH [OF this] show ?thesis
      using True by (auto simp: x signature_dict_snoc nth_append)
  next
    case False
    with snoc.prems have "i = length sigs" by simp
    then show ?thesis by (simp add: x signature_dict_snoc)
  qed
qed

subsection \<open>One pass of the streaming delta\<close>

lemma take_read:
  "take p C @ take n (drop p C) = take (p + length (take n (drop p C))) C"
proof -
  have "take (p + min (length C - p) n) C = take p C @ take (min (length C - p) n) (drop p C)"
    by (rule take_add)
  also have "take (min (length C - p) n) (drop p C) = take n (drop p C)"
    by (simp add: min_def)
  finally show ?thesis by simp
qed

lemma expand_flush [simp]: "expand B bs (flush st) = emitted B bs st"
  by (simp add: flush_def emitted_def)

lemma covers_Some:
  "datastream st = Some d \<Longrightarrow>
     covers B C bs st \<longleftrightarrow>
       window_offset st \<le> length (window st) \<and> contents d = C \<and> \<not> closed d
       \<and> emitted B bs st @ drop (window_offset st) (window st) = take (pos d) C"
  by (simp add: covers_def)

lemma covers_None:
  "datastream st = None \<Longrightarrow>
     covers B C bs st \<longleftrightarrow>
       window_offset st \<le> length (window st)
       \<and> emitted B bs st @ drop (window_offset st) (window st) = C"
  by (simp add: covers_def)

lemma budget_Some:
  "datastream st = Some d \<Longrightarrow>
     budget st = 2 * (length (contents d) - pos d) + (length (window st) - window_offset st) + 2"
  by (simp add: budget_def)

lemma budget_None:
  "datastream st = None \<Longrightarrow> budget st = (length (window st) - window_offset st) + 1"
  by (simp add: budget_def)

lemma next_byte_covers:
  assumes "0 < bs" and "covers B C bs st"
  shows "\<exists>st2. next_byte bs (st\<lparr>match := False\<rparr>) = Inr st2
      \<and> covers B C bs st2 \<and> \<not> match st2 \<and> budget st2 \<le> budget st
      \<and> (datastream st2 \<noteq> None \<longrightarrow> window_offset st2 < length (window st2))
      \<and> window_offset st2 = window_offset st
      \<and> length (window st2) \<le> Suc (length (window st))"
proof (cases "datastream st")
  case None
  let ?st2 = "st\<lparr>match := False\<rparr>"
  have "next_byte bs ?st2 = Inr ?st2" using None by (simp add: next_byte_def)
  moreover have "covers B C bs ?st2"
    using assms(2) None by (simp add: covers_None emitted_def)
  moreover have "budget ?st2 = budget st" using None by (simp add: budget_None)
  ultimately show ?thesis using None by auto
next
  case (Some d)
  from assms(2) Some have wo: "window_offset st \<le> length (window st)"
    and cd: "contents d = C" and op: "\<not> closed d"
    and em: "emitted B bs st @ drop (window_offset st) (window st) = take (pos d) C"
    by (simp_all add: covers_Some)
  show ?thesis
  proof (cases "take (Suc 0) (drop (pos d) C)")
    case Nil
    then have full: "take (pos d) C = C" by (cases "pos d < length C") auto
    let ?st2 = "st\<lparr>match := False, newbyte := 0, tailsize := pos d mod bs, datastream := None\<rparr>"
    have "next_byte bs (st\<lparr>match := False\<rparr>) = Inr ?st2"
      using Some Nil cd assms(1) by (simp add: next_byte_def read_stream_def Let_def tell_def)
    moreover have "covers B C bs ?st2"
      using wo em full by (simp add: covers_None emitted_def)
    moreover have "budget ?st2 \<le> budget st"
      using Some by (simp add: budget_None budget_Some)
    ultimately show ?thesis by auto
  next
    case (Cons c cs)
    then have lt: "pos d < length C" by (cases "pos d < length C") auto
    from Cons have x: "take (Suc 0) (drop (pos d) C) = [c]"
      by (cases "drop (pos d) C") auto
    let ?d' = "d\<lparr>pos := Suc (pos d)\<rparr>"
    let ?st2 = "st\<lparr>match := False, datastream := Some ?d', newbyte := uint c,
      window := window st @ [c]\<rparr>"
    have nb: "next_byte bs (st\<lparr>match := False\<rparr>) = Inr ?st2"
      using Some x cd by (simp add: next_byte_def read_stream_def Let_def)
    have "take (pos d) C @ [c] = take (Suc (pos d)) C"
      using take_read [of "pos d" C "Suc 0"] x by simp
    then have "emitted B bs st @ drop (window_offset st) (window st @ [c]) = take (Suc (pos d)) C"
      using em wo by (simp add: append_assoc [symmetric] del: append_assoc)
    then have cv: "covers B C bs ?st2"
      using wo cd op by (simp add: covers_Some [of ?st2 ?d'] emitted_def)
    have bu: "budget ?st2 \<le> budget st"
      using Some lt cd wo by (simp add: budget_Some [of ?st2 ?d'] budget_Some [of st d])
    have "window_offset ?st2 < length (window ?st2)" using wo by simp
    with nb cv bu show ?thesis by auto
  qed
qed

lemma rsync_shift_step:
  assumes "0 < bs" and "covers B C bs st"
  shows "(\<exists>st'. rsync_shift bs mb st = Continue st' \<and> \<not> match st'
            \<and> covers B C bs st' \<and> budget st' < budget st
            \<and> length (window st') - window_offset st'
                \<le> length (window st) - window_offset st)
       \<or> (\<exists>st'. rsync_shift bs mb st = Break st' \<and> expand B bs (flush st') = C)"
proof -
  from next_byte_covers [OF assms] obtain st2 where
    nb: "next_byte bs (st\<lparr>match := False\<rparr>) = Inr st2"
    and cv: "covers B C bs st2" and nm: "\<not> match st2" and bu: "budget st2 \<le> budget st"
    and ne: "datastream st2 \<noteq> None \<longrightarrow> window_offset st2 < length (window st2)"
    and wo2: "window_offset st2 = window_offset st"
    and len2: "length (window st2) \<le> Suc (length (window st))"
    by blast
  show ?thesis
  proof (cases "datastream st2 = None
      \<and> int (length (window st2)) - int (window_offset st2) \<le> int (tailsize st2)")
    case True
    let ?st' = "st2\<lparr>yielded := flush st2,
      current_block := drop (window_offset st2) (window st2)\<rparr>"
    have "rsync_shift bs mb st = Break ?st'"
      using nb True by (simp add: rsync_shift_def)
    moreover have "expand B bs (flush ?st') = C"
      using cv True by (simp add: covers_None emitted_def)
    ultimately show ?thesis by blast
  next
    case False
    have lt: "window_offset st2 < length (window st2)"
    proof (cases "datastream st2")
      case None
      with False show ?thesis by simp
    next
      case (Some d)
      with ne show ?thesis by simp
    qed
    let ?old = "window st2 ! window_offset st2"
    obtain c a b where
      r: "rollingchecksum (uint ?old) (newbyte st2) (sum_a st2) (sum_b st2) bs = (c, a, b)"
      by (cases "rollingchecksum (uint ?old) (newbyte st2) (sum_a st2) (sum_b st2) bs") auto
    let ?st3 = "st2\<lparr>window_offset := window_offset st2 + 1,
      checksum := c, sum_a := a, sum_b := b\<rparr>"
    let ?st4 = "if mb \<le> length (current_block ?st3)
      then ?st3\<lparr>yielded := yielded ?st3 @ [Literal (current_block ?st3)], current_block := []\<rparr>
      else ?st3"
    let ?st' = "?st4\<lparr>current_block := current_block ?st4 @ [?old]\<rparr>"
    have sh: "rsync_shift bs mb st = Continue ?st'"
      using nb False lt r by (simp add: rsync_shift_def Let_def)
    have em: "emitted B bs ?st' = emitted B bs st2 @ [?old]"
      by (simp add: emitted_def)
    have ds: "datastream ?st' = datastream st2" and w: "window ?st' = window st2"
      and wo: "window_offset ?st' = Suc (window_offset st2)" and m: "match ?st' = match st2"
      by simp_all
    have dr: "[?old] @ drop (Suc (window_offset st2)) (window st2)
        = drop (window_offset st2) (window st2)"
      using lt by (simp add: Cons_nth_drop_Suc)
    have cv': "covers B C bs ?st'"
    proof (cases "datastream st2")
      case None
      with cv have "emitted B bs st2 @ drop (window_offset st2) (window st2) = C"
        by (simp add: covers_None)
      then have "emitted B bs ?st' @ drop (window_offset ?st') (window ?st') = C"
        unfolding em w wo using dr by simp
      then show ?thesis
        using None lt by (simp only: covers_None [of ?st'] ds w wo) simp
    next
      case (Some d)
      with cv have k: "contents d = C" "\<not> closed d"
        "emitted B bs st2 @ drop (window_offset st2) (window st2) = take (pos d) C"
        by (simp_all add: covers_Some)
      then have "emitted B bs ?st' @ drop (window_offset ?st') (window ?st') = take (pos d) C"
        unfolding em w wo using dr by simp
      then show ?thesis
        using Some lt k by (simp only: covers_Some [of ?st' d] ds w wo) simp
    qed
    have "budget ?st' < budget st2"
    proof (cases "datastream st2")
      case None
      then show ?thesis
        using lt by (simp add: budget_def)
    next
      case (Some d)
      then show ?thesis
        using lt by (simp add: budget_def)
    qed
    with bu have bu': "budget ?st' < budget st" by simp
    have "length (window ?st') - window_offset ?st' \<le> length (window st) - window_offset st"
      unfolding w wo using wo2 len2 by simp
    with sh cv' nm m bu' show ?thesis by blast
  qed
qed

lemma rsync_reseed_idle:
  "\<not> match st \<or> datastream st = None \<Longrightarrow> rsync_reseed bs st = st"
  by (auto simp: rsync_reseed_def split: option.splits)

lemma rsync_reseed_read:
  assumes "match st" and "datastream st = Some d"
  shows "\<exists>c a b. weakchecksum (take bs (drop (pos d) (contents d))) = (c, a, b)
      \<and> rsync_reseed bs st
          = st\<lparr>datastream := Some (d\<lparr>pos := pos d + length (take bs (drop (pos d) (contents d)))\<rparr>),
               window := take bs (drop (pos d) (contents d)), window_offset := 0,
               checksum := c, sum_a := a, sum_b := b\<rparr>"
proof -
  obtain c a b where w: "weakchecksum (take bs (drop (pos d) (contents d))) = (c, a, b)"
    by (cases "weakchecksum (take bs (drop (pos d) (contents d)))") auto
  then show ?thesis
    using assms by (simp add: rsync_reseed_def read_stream_def Let_def)
qed

lemma take_length_take: "take (length (take n xs)) xs = take n xs"
  by (cases "n \<le> length xs") (simp_all add: min_def)

lemma segmentI:
  assumes "n \<le> bs"
  shows "take n (drop p C) \<in> segments C bs"
proof (cases "p \<le> length C")
  case True
  with assms have "(p, n) \<in> {0..length C} \<times> {0..bs}" by simp
  then have "(\<lambda>(p, n). take n (drop p C)) (p, n) \<in> segments C bs"
    unfolding segments_def by (rule imageI)
  then show ?thesis by simp
next
  case False
  from assms have "(length C, n) \<in> {0..length C} \<times> {0..bs}" by simp
  then have "(\<lambda>(p, n). take n (drop p C)) (length C, n) \<in> segments C bs"
    unfolding segments_def by (rule imageI)
  with False show ?thesis by simp
qed

lemma suffix_segment:
  assumes "E @ W = take P C" and "length W \<le> bs"
  shows "W \<in> segments C bs"
proof -
  have "W = drop (length E) (E @ W)" by simp
  also have "\<dots> = take (P - length E) (drop (length E) C)"
    unfolding assms(1) by (rule drop_take)
  finally have W: "W = take (P - length E) (drop (length E) C)" .
  have "take (length (take (P - length E) (drop (length E) C))) (drop (length E) C)
      = take (P - length E) (drop (length E) C)"
    by (rule take_length_take)
  then have "take (length W) (drop (length E) C) = W"
    by (simp only: W [symmetric])
  then have "W = take (length W) (drop (length E) C)" by simp
  with segmentI [OF assms(2), of "length E" C] show ?thesis by simp
qed

lemma covers_segment:
  assumes "covers B C bs st" and "length (window st) - window_offset st \<le> bs"
  shows "drop (window_offset st) (window st) \<in> segments C bs"
proof (cases "datastream st")
  case None
  with assms(1) have "emitted B bs st @ drop (window_offset st) (window st) = take (length C) C"
    by (simp add: covers_None)
  moreover have "length (drop (window_offset st) (window st)) \<le> bs"
    using assms(2) by simp
  ultimately show ?thesis by (rule suffix_segment)
next
  case (Some d)
  with assms(1) have "emitted B bs st @ drop (window_offset st) (window st) = take (pos d) C"
    by (simp add: covers_Some)
  moreover have "length (drop (window_offset st) (window st)) \<le> bs"
    using assms(2) by simp
  ultimately show ?thesis by (rule suffix_segment)
qed

lemma block_segment: "take bs (drop p B) \<in> segments B bs"
  by (rule segmentI) simp

lemma rsync_matched_step:
  assumes inj: "inj_on md5 (segments B bs \<union> segments C bs)"
    and live: "length (window st) - window_offset st \<le> bs"
    and good: "\<And>w j s. sd w = Some (j, s) \<Longrightarrow>
        s = md5 (take bs (drop (j * bs) B)) \<and> take bs (drop (j * bs) B) \<noteq> []"
    and cv: "covers B C bs st"
    and hit: "sd (checksum st) = Some (j, s)"
    and strong: "s = md5 (drop (window_offset st) (window st))"
  shows "(\<exists>st'. rsync_matched j st = Continue st'
            \<and> covers B C bs (rsync_reseed bs st') \<and> budget (rsync_reseed bs st') < budget st
            \<and> length (window (rsync_reseed bs st')) - window_offset (rsync_reseed bs st') \<le> bs)
       \<or> (\<exists>st'. rsync_matched j st = Raise AttributeError st' \<and> expand B bs (yielded st') = C)"
proof -
  let ?blk = "take bs (drop (j * bs) B)"
  from good [OF hit] strong have eq: "md5 ?blk = md5 (drop (window_offset st) (window st))"
    and ne: "?blk \<noteq> []" by simp_all
  have "?blk \<in> segments B bs \<union> segments C bs"
    using block_segment [of bs "j * bs" B] by simp
  moreover have "drop (window_offset st) (window st) \<in> segments B bs \<union> segments C bs"
    using covers_segment [OF cv live] by simp
  ultimately have blk: "drop (window_offset st) (window st) = ?blk"
    using inj eq by (auto dest: inj_onD)
  have "drop (window_offset st) (window st) \<noteq> []"
    using blk ne by simp
  then have k: "0 < length (window st) - window_offset st" by simp
  let ?st' = "st\<lparr>match := True, yielded := flush st @ [BlockRef j], current_block := []\<rparr>"
  have ex: "expand B bs (yielded ?st') = emitted B bs st @ drop (window_offset st) (window st)"
    by (simp add: blk)
  show ?thesis
  proof (cases "datastream st")
    case None
    then have "rsync_matched j st = Raise AttributeError ?st'"
      by (simp add: rsync_matched_def Let_def)
    moreover have "expand B bs (yielded ?st') = C"
      using cv None ex by (simp add: covers_None)
    ultimately show ?thesis by blast
  next
    case (Some d)
    with cv have cd: "contents d = C" and op: "\<not> closed d"
      and em: "emitted B bs st @ drop (window_offset st) (window st) = take (pos d) C"
      by (simp_all add: covers_Some)
    have m: "rsync_matched j st = Continue ?st'"
      using Some op by (simp add: rsync_matched_def Let_def)
    let ?x = "take bs (drop (pos d) C)"
    let ?d' = "d\<lparr>pos := pos d + length ?x\<rparr>"
    from rsync_reseed_read [of ?st' d bs] Some cd obtain c a b where
      rs: "rsync_reseed bs ?st' = ?st'\<lparr>datastream := Some ?d', window := ?x,
             window_offset := 0, checksum := c, sum_a := a, sum_b := b\<rparr>"
      by auto
    have "emitted B bs ?st' @ ?x = take (pos d + length ?x) C"
      using ex em take_read [of "pos d" C bs] by (simp add: emitted_def)
    then have c': "covers B C bs (rsync_reseed bs ?st')"
      unfolding rs using cd op by (simp add: covers_def emitted_def)
    have "length ?x \<le> length C - pos d" by simp
    then have "2 * (length C - (pos d + length ?x)) + length ?x
        < 2 * (length C - pos d) + (length (window st) - window_offset st)"
      using k by arith
    then have b': "budget (rsync_reseed bs ?st') < budget st"
      unfolding rs using Some cd by (simp add: budget_def)
    have l': "length (window (rsync_reseed bs ?st')) - window_offset (rsync_reseed bs ?st') \<le> bs"
      unfolding rs by simp
    from m c' b' l' show ?thesis by blast
  qed
qed

lemma rsync_body_step:
  assumes inj: "inj_on md5 (segments B bs \<union> segments C bs)" and bs: "0 < bs"
    and good: "\<And>w j s. sd w = Some (j, s) \<Longrightarrow>
        s = md5 (take bs (drop (j * bs) B)) \<and> take bs (drop (j * bs) B) \<noteq> []"
    and cv: "covers B C bs (rsync_reseed bs st)"
    and live: "length (window (rsync_reseed bs st)) - window_offset (rsync_reseed bs st) \<le> bs"
  shows "(\<exists>st'. rsync_body md5 sd bs mb st = Continue st'
            \<and> (covers B C bs (rsync_reseed bs st')
                \<and> length (window (rsync_reseed bs st')) - window_offset (rsync_reseed bs st') \<le> bs)
            \<and> budget (rsync_reseed bs st') < budget (rsync_reseed bs st))
       \<or> (\<exists>st'. rsync_body md5 sd bs mb st = Break st' \<and> accounts_for B C bs (Returned st'))
       \<or> (\<exists>e st'. rsync_body md5 sd bs mb st = Raise e st' \<and> accounts_for B C bs (Raised e st'))"
proof -
  let ?st = "rsync_reseed bs st"
  have shift: ?thesis if "rsync_body md5 sd bs mb st = rsync_shift bs mb ?st"
  proof -
    from rsync_shift_step [OF bs cv, of mb] show ?thesis
    proof (elim disjE exE conjE)
      fix st' assume s: "rsync_shift bs mb ?st = Continue st'" and nm: "\<not> match st'"
        and c: "covers B C bs st'" and b: "budget st' < budget ?st"
        and l: "length (window st') - window_offset st'
                \<le> length (window ?st) - window_offset ?st"
      from nm have "rsync_reseed bs st' = st'" by (simp add: rsync_reseed_idle)
      with s c b l live that show ?thesis by simp
    next
      fix st' assume "rsync_shift bs mb ?st = Break st'" and "expand B bs (flush st') = C"
      with that show ?thesis by (simp add: accounts_for_def)
    qed
  qed
  show ?thesis
  proof (cases "sd (checksum ?st)")
    case None
    then show ?thesis by (intro shift) (simp add: rsync_body_def Let_def)
  next
    case (Some js)
    obtain j s where js: "js = (j, s)" by (cases js)
    show ?thesis
    proof (cases "s = md5 (drop (window_offset ?st) (window ?st))")
      case False
      with Some js show ?thesis by (intro shift) (simp add: rsync_body_def Let_def)
    next
      case True
      with Some js have b: "rsync_body md5 sd bs mb st = rsync_matched j ?st"
        by (simp add: rsync_body_def Let_def)
      have h: "sd (checksum ?st) = Some (j, s)" using Some js by simp
      have "(\<exists>st'. rsync_matched j ?st = Continue st'
            \<and> covers B C bs (rsync_reseed bs st') \<and> budget (rsync_reseed bs st') < budget ?st
            \<and> length (window (rsync_reseed bs st')) - window_offset (rsync_reseed bs st') \<le> bs)
          \<or> (\<exists>st'. rsync_matched j ?st = Raise AttributeError st'
            \<and> expand B bs (yielded st') = C)"
        by (rule rsync_matched_step [where sd = sd, OF inj live _ cv h True])
           (rule good)
      then show ?thesis unfolding b by (auto simp: accounts_for_def)
    qed
  qed
qed

subsection \<open>The whole run\<close>

lemma baseline_dict_good:
  assumes "0 < bs" and "pos base = 0"
    and "signature_dict (fst (blockchecksums md5 base bs)) w = Some (j, s)"
  shows "s = md5 (take bs (drop (j * bs) (contents base)))
       \<and> take bs (drop (j * bs) (contents base)) \<noteq> []"
proof -
  let ?sigs = "fst (block_checksums md5 base bs)"
  from signature_dict_Some [OF assms(3)] have j: "j < length ?sigs" and e: "?sigs ! j = (w, s)"
    by (simp_all add: blockchecksums_def)
  from block_checksums_nth [OF assms(1) j] block_checksums_block_nonempty [OF assms(1) j] e
  show ?thesis by (simp add: assms(2))
qed

lemma rsync_init_reseed:
  assumes "pos ds = 0"
  shows "covers B (contents ds) bs (rsync_reseed bs (rsync_init ds)) \<longleftrightarrow> \<not> closed ds"
    and "budget (rsync_reseed bs (rsync_init ds)) \<le> 2 * length (contents ds) + 2"
    and "length (window (rsync_reseed bs (rsync_init ds)))
          - window_offset (rsync_reseed bs (rsync_init ds)) \<le> bs"
proof -
  let ?x = "take bs (contents ds)"
  from rsync_reseed_read [of "rsync_init ds" ds bs] assms obtain c a b where
    rs: "rsync_reseed bs (rsync_init ds)
          = (rsync_init ds)\<lparr>datastream := Some (ds\<lparr>pos := length ?x\<rparr>), window := ?x,
               window_offset := 0, checksum := c, sum_a := a, sum_b := b\<rparr>"
    by (auto simp: rsync_init_def)
  show "covers B (contents ds) bs (rsync_reseed bs (rsync_init ds)) \<longleftrightarrow> \<not> closed ds"
    unfolding rs by (simp add: covers_def emitted_def rsync_init_def min_def)
  show "budget (rsync_reseed bs (rsync_init ds)) \<le> 2 * length (contents ds) + 2"
    unfolding rs by (simp add: budget_def rsync_init_def)
  show "length (window (rsync_reseed bs (rsync_init ds)))
          - window_offset (rsync_reseed bs (rsync_init ds)) \<le> bs"
    unfolding rs by simp
qed

lemma rsync_scan_total:
  assumes inj: "inj_on md5 (segments B bs \<union> segments (contents ds) bs)" and bs: "0 < bs"
    and good: "\<And>w j s. sd w = Some (j, s) \<Longrightarrow>
        s = md5 (take bs (drop (j * bs) B)) \<and> take bs (drop (j * bs) B) \<noteq> []"
    and ds: "pos ds = 0" "\<not> closed ds"
    and fuel: "2 * length (contents ds) + 3 \<le> fuel"
  shows "\<exists>r. iterate (rsync_body md5 sd bs mb) fuel (rsync_init ds) = Some r
      \<and> accounts_for B (contents ds) bs r"
proof (rule iterate_total [where I = "\<lambda>st. covers B (contents ds) bs (rsync_reseed bs st)
        \<and> length (window (rsync_reseed bs st)) - window_offset (rsync_reseed bs st) \<le> bs"
      and m = "\<lambda>st. budget (rsync_reseed bs st)"])
  fix st assume "covers B (contents ds) bs (rsync_reseed bs st)
        \<and> length (window (rsync_reseed bs st)) - window_offset (rsync_reseed bs st) \<le> bs"
  then have c: "covers B (contents ds) bs (rsync_reseed bs st)"
    and l: "length (window (rsync_reseed bs st)) - window_offset (rsync_reseed bs st) \<le> bs"
    by simp_all
  show "(\<exists>st'. rsync_body md5 sd bs mb st = Continue st'
            \<and> (covers B (contents ds) bs (rsync_reseed bs st')
                \<and> length (window (rsync_reseed bs st')) - window_offset (rsync_reseed bs st') \<le> bs)
            \<and> budget (rsync_reseed bs st') < budget (rsync_reseed bs st))
       \<or> (\<exists>st'. rsync_body md5 sd bs mb st = Break st'
            \<and> accounts_for B (contents ds) bs (Returned st'))
       \<or> (\<exists>e st'. rsync_body md5 sd bs mb st = Raise e st'
            \<and> accounts_for B (contents ds) bs (Raised e st'))"
    by (rule rsync_body_step [where sd = sd, OF inj bs _ c l]) (rule good)
next
  show "covers B (contents ds) bs (rsync_reseed bs (rsync_init ds))
      \<and> length (window (rsync_reseed bs (rsync_init ds)))
          - window_offset (rsync_reseed bs (rsync_init ds)) \<le> bs"
    using ds rsync_init_reseed(3) [OF ds(1), of bs] by (simp add: rsync_init_reseed(1))
next
  show "budget (rsync_reseed bs (rsync_init ds)) < fuel"
    using rsync_init_reseed(2) [OF ds(1), of bs] fuel by simp
qed

lemma weakchecksum_Nil: "weakchecksum [] = (0, 0, 0)"
  by (simp add: weakchecksum_def)

lemma aligned_step:
  assumes inj: "inj_on md5 (segments B bs)" and bs: "0 < bs"
    and good: "\<And>w j s. sd w = Some (j, s) \<Longrightarrow>
        s = md5 (take bs (drop (j * bs) B)) \<and> take bs (drop (j * bs) B) \<noteq> []"
    and full: "\<And>i. i * bs < length B \<Longrightarrow>
        \<exists>j. sd (fst (weakchecksum (take bs (drop (i * bs) B))))
              = Some (j, md5 (take bs (drop (i * bs) B)))"
    and al: "aligned B bs st"
  shows "(\<exists>st'. rsync_body md5 sd bs mb st = Continue st' \<and> aligned B bs st')
       \<or> (\<exists>st'. rsync_body md5 sd bs mb st = Break st' \<and> list_all is_ref (flush st'))"
proof -
  from al obtain d i where m: "match st" and cb: "current_block st = []"
    and refs: "list_all is_ref (yielded st)" and d: "datastream st = Some d"
    and cd: "contents d = B" and op: "\<not> closed d" and p: "pos d = min (i * bs) (length B)"
    by (auto simp: aligned_def)
  let ?x = "take bs (drop (pos d) B)"
  let ?d' = "d\<lparr>pos := pos d + length ?x\<rparr>"
  from rsync_reseed_read [OF m d, of bs] cd obtain c a b where
    w: "weakchecksum ?x = (c, a, b)"
    and rs: "rsync_reseed bs st = st\<lparr>datastream := Some ?d', window := ?x,
             window_offset := 0, checksum := c, sum_a := a, sum_b := b\<rparr>"
    by auto
  let ?st = "rsync_reseed bs st"
  show ?thesis
  proof (cases "pos d < length B")
    case True
    with p have pi: "pos d = i * bs" by (simp add: min_def split: if_splits)
    from full [of i] True pi obtain j where
      j: "sd (fst (weakchecksum ?x)) = Some (j, md5 ?x)" by auto
    let ?st' = "?st\<lparr>match := True, yielded := flush ?st @ [BlockRef j], current_block := []\<rparr>"
    have "rsync_body md5 sd bs mb st = rsync_matched j ?st"
      using j w by (simp add: rsync_body_def Let_def rs)
    also have "\<dots> = Continue ?st'"
      using op by (simp add: rsync_matched_def Let_def rs)
    finally have body: "rsync_body md5 sd bs mb st = Continue ?st'" .
    have lx: "length ?x = min (length B - i * bs) bs" using pi by simp
    have "i * bs + min (length B - i * bs) bs = min (bs + i * bs) (length B)"
      using True pi by arith
    then have "pos d + length ?x = min (Suc i * bs) (length B)"
      using pi lx by simp
    then have "aligned B bs ?st'"
      using refs cb cd op unfolding aligned_def rs flush_def
      by (auto intro!: exI [of _ "Suc i"])
    with body show ?thesis by blast
  next
    case False
    then have x: "?x = []" by simp
    with w have c: "c = 0" by (simp add: weakchecksum_Nil)
    have nomatch: "rsync_body md5 sd bs mb st = rsync_shift bs mb ?st"
    proof (cases "sd 0")
      case None
      then show ?thesis by (simp add: rsync_body_def Let_def rs c)
    next
      case (Some js)
      obtain j s where js: "js = (j, s)" by (cases js)
      from good [of 0 j s] Some js have "s = md5 (take bs (drop (j * bs) B))"
        and "take bs (drop (j * bs) B) \<noteq> []" by simp_all
      moreover have "take bs (drop (j * bs) B) \<in> segments B bs" by (rule block_segment)
      moreover have "[] \<in> segments B bs"
        using segmentI [of 0 bs 0 B] by simp
      ultimately have "s \<noteq> md5 []" using inj by (auto dest: inj_onD)
      with Some js show ?thesis by (simp add: rsync_body_def Let_def rs c x)
    qed
    have e: "take (Suc 0) (drop (pos d) B) = []" using False by simp
    let ?st2 = "?st\<lparr>match := False, newbyte := 0, tailsize := pos d mod bs, datastream := None\<rparr>"
    have nb: "next_byte bs (?st\<lparr>match := False\<rparr>) = Inr ?st2"
      using bs e cd by (simp add: rs x next_byte_def read_stream_def Let_def tell_def)
    let ?st' = "?st2\<lparr>yielded := flush ?st2,
      current_block := drop (window_offset ?st2) (window ?st2)\<rparr>"
    have "rsync_shift bs mb ?st = Break ?st'"
      using nb by (simp add: rsync_shift_def rs x)
    moreover have "list_all is_ref (flush ?st')"
      using refs cb by (simp add: flush_def rs x)
    ultimately show ?thesis using nomatch by simp
  qed
qed

lemma aligned_run:
  assumes inj: "inj_on md5 (segments B bs)" and bs: "0 < bs"
    and good: "\<And>w j s. sd w = Some (j, s) \<Longrightarrow>
        s = md5 (take bs (drop (j * bs) B)) \<and> take bs (drop (j * bs) B) \<noteq> []"
    and full: "\<And>i. i * bs < length B \<Longrightarrow>
        \<exists>j. sd (fst (weakchecksum (take bs (drop (i * bs) B))))
              = Some (j, md5 (take bs (drop (i * bs) B)))"
    and al: "aligned B bs st"
    and run: "iterate (rsync_body md5 sd bs mb) fuel st = Some r"
  shows "\<exists>st'. r = Returned st' \<and> list_all is_ref (flush st')"
proof (rule iterate_result [where I = "aligned B bs"
      and body = "rsync_body md5 sd bs mb", OF _ _ _ al run])
  fix s s' assume a: "aligned B bs s" and b: "rsync_body md5 sd bs mb s = Continue s'"
  have "(\<exists>st'. rsync_body md5 sd bs mb s = Continue st' \<and> aligned B bs st')
       \<or> (\<exists>st'. rsync_body md5 sd bs mb s = Break st' \<and> list_all is_ref (flush st'))"
    by (rule aligned_step [where sd = sd, OF inj bs _ _ a]) (rule good, assumption, rule full, assumption)
  with b show "aligned B bs s'" by auto
next
  fix s s' assume a: "aligned B bs s" and b: "rsync_body md5 sd bs mb s = Break s'"
  have "(\<exists>st'. rsync_body md5 sd bs mb s = Continue st' \<and> aligned B bs st')
       \<or> (\<exists>st'. rsync_body md5 sd bs mb s = Break st' \<and> list_all is_ref (flush st'))"
    by (rule aligned_step [where sd = sd, OF inj bs _ _ a]) (rule good, assumption, rule full, assumption)
  with b show "\<exists>st'. Returned s' = Returned st' \<and> list_all is_ref (flush st')" by auto
next
  fix s e s' assume a: "aligned B bs s" and b: "rsync_body md5 sd bs mb s = Raise e s'"
  have "(\<exists>st'. rsync_body md5 sd bs mb s = Continue st' \<and> aligned B bs st')
       \<or> (\<exists>st'. rsync_body md5 sd bs mb s = Break st' \<and> list_all is_ref (flush st'))"
    by (rule aligned_step [where sd = sd, OF inj bs _ _ a]) (rule good, assumption, rule full, assumption)
  with b show "\<exists>st'. Raised e s' = Returned st' \<and> list_all is_ref (flush st')" by auto
qed

text \<open>
  Claim C1 as stated fails in its second half: \<^verbatim>\<open>rsyncdelta\<close> keeps one block per weak
  checksum (the dict comprehension), and the blocks \<^verbatim>\<open>[1,0,1]\<close> and \<^verbatim>\<open>[0,2,0]\<close> share
  theirs. For the baseline \<^verbatim>\<open>[1,0,1,0,2,0]\<close> (two full blocks of size 3) and the identical
  candidate the delta starts with a literal of three bytes.
\<close>

theorem identical_candidate_counterexample:
  "rsyncdelta id 5 \<lparr>contents = [1, 0, 1, 0, 2, 0], pos = 0, closed = False\<rparr>
     (fst (blockchecksums id \<lparr>contents = [1, 0, 1, 0, 2, 0], pos = 0, closed = False\<rparr> 3))
     3 4096
   = Some ([Literal [1, 0, 1], BlockRef 1], None)"
  by code_simp

text \<open>
  Claim C1, amended. Let the block size be positive, let the strong hash tell apart the
  runs of at most \<open>blocksize\<close> consecutive bytes of the baseline, and let the candidate
  stream (open, at position 0) hold the bytes of the baseline. Then the loop of
  \<^verbatim>\<open>rsyncdelta\<close> ends within \<open>2 * length + 3\<close> passes; if it ends without an exception,
  applying what it yielded with \<^verbatim>\<open>patchstream\<close> against the baseline writes exactly the
  baseline's bytes; and if signatures of the baseline with equal weak checksums have
  equal strong hashes, it does end without an exception and yields block references
  only (for every length of the baseline).
\<close>

theorem identical_candidate_round_trip:
  assumes inj: "inj_on md5 (segments (contents base) blocksize)" and bs: "0 < blocksize"
    and base: "pos base = 0"
    and cand: "contents cand = contents base" "pos cand = 0" "\<not> closed cand"
    and sigs: "sigs = fst (blockchecksums md5 base blocksize)"
    and fuel: "2 * length (contents base) + 3 \<le> fuel"
  shows "\<exists>items e. rsyncdelta md5 fuel cand sigs blocksize max_buffer = Some (items, e)
      \<and> (e = None \<longrightarrow>
            fst (snd (patchstream2 base out (items, None) blocksize)) = out @ contents base)
      \<and> ((\<forall>i < length sigs. \<forall>j < length sigs.
              fst (sigs ! i) = fst (sigs ! j) \<longrightarrow> snd (sigs ! i) = snd (sigs ! j))
           \<longrightarrow> e = None \<and> list_all is_ref items)"
proof -
  let ?B = "contents base"
  let ?sd = "signature_dict sigs"
  let ?body = "rsync_body md5 ?sd blocksize max_buffer"
  have inj': "inj_on md5 (segments ?B blocksize \<union> segments (contents cand) blocksize)"
    using inj cand(1) by simp
  have good: "s = md5 (take blocksize (drop (j * blocksize) ?B))
      \<and> take blocksize (drop (j * blocksize) ?B) \<noteq> []"
    if "?sd w = Some (j, s)" for w j s
    by (rule baseline_dict_good [OF bs base that [unfolded sigs]])
  have fuel': "2 * length (contents cand) + 3 \<le> fuel"
    using fuel cand(1) by simp
  have "\<exists>r. iterate ?body fuel (rsync_init cand) = Some r
      \<and> accounts_for ?B (contents cand) blocksize r"
    by (rule rsync_scan_total [where sd = ?sd and B = ?B, OF inj' bs _ cand(2,3) fuel'])
       (rule good)
  then obtain r where run: "iterate ?body fuel (rsync_init cand) = Some r"
    and acc: "accounts_for ?B ?B blocksize r"
    unfolding cand(1) by blast
  define items where "items = (case r of Returned st \<Rightarrow> flush st | Raised e st \<Rightarrow> yielded st)"
  define e where "e = (case r of Returned st \<Rightarrow> None | Raised e st \<Rightarrow> Some e)"
  have delta: "rsyncdelta md5 fuel cand sigs blocksize max_buffer = Some (items, e)"
    using run by (simp add: rsyncdelta_def rsync_scan_def items_def e_def split: run.splits)
  have "expand ?B blocksize items = ?B"
    using acc by (auto simp: accounts_for_def items_def split: run.splits)
  then have patch: "fst (snd (patchstream2 base out (items, None) blocksize)) = out @ ?B"
    using patchstream2_expand [OF bs, of base out items None] by simp
  have refs: "e = None \<and> list_all is_ref items"
    if nocoll: "\<forall>i < length sigs. \<forall>j < length sigs.
              fst (sigs ! i) = fst (sigs ! j) \<longrightarrow> snd (sigs ! i) = snd (sigs ! j)"
  proof -
    have full: "\<exists>j. ?sd (fst (weakchecksum (take blocksize (drop (i * blocksize) ?B))))
              = Some (j, md5 (take blocksize (drop (i * blocksize) ?B)))"
      if i: "i * blocksize < length ?B" for i
    proof -
      have len: "length sigs = (length ?B + blocksize - 1) div blocksize"
        using block_checksums_length [OF bs, of md5 base] base
        by (simp add: sigs blockchecksums_def)
      have "Suc i * blocksize \<le> length ?B + blocksize - 1" using i by simp
      then have "Suc i \<le> length sigs"
        unfolding len using bs by (simp only: less_eq_div_iff_mult_less_eq)
      then have il: "i < length sigs" by simp
      then have il': "i < length (fst (block_checksums md5 base blocksize))"
        by (simp add: sigs blockchecksums_def)
      have si: "sigs ! i = (fst (weakchecksum (take blocksize (drop (i * blocksize) ?B))),
          md5 (take blocksize (drop (i * blocksize) ?B)))"
        using block_checksums_nth [OF bs il'] base by (simp add: sigs blockchecksums_def)
      from signature_dict_dom [OF il] obtain j s where
        d: "?sd (fst (sigs ! i)) = Some (j, s)" by blast
      from signature_dict_Some [OF d] have jl: "j < length sigs"
        and sj: "sigs ! j = (fst (sigs ! i), s)" by simp_all
      from nocoll il jl have "fst (sigs ! i) = fst (sigs ! j) \<longrightarrow> snd (sigs ! i) = snd (sigs ! j)"
        by blast
      with sj have "s = snd (sigs ! i)" by simp
      with d si show ?thesis by simp
    qed
    have "\<exists>d i. datastream (rsync_init cand) = Some d \<and> contents d = ?B \<and> \<not> closed d
        \<and> pos d = min (i * blocksize) (length ?B)"
      using cand by (intro exI [of _ cand] exI [of _ 0]) (simp add: rsync_init_def)
    then have al: "aligned ?B blocksize (rsync_init cand)"
      by (simp add: aligned_def rsync_init_def)
    have "\<exists>st'. r = Returned st' \<and> list_all is_ref (flush st')"
      by (rule aligned_run [where sd = ?sd, OF inj bs _ _ al run])
         (rule good, assumption, rule full, assumption)
    then show ?thesis by (auto simp: items_def e_def)
  qed
  show ?thesis
  proof (intro exI conjI impI)
    show "rsyncdelta md5 fuel cand sigs blocksize max_buffer = Some (items, e)" by (rule delta)
    show "fst (snd (patchstream2 base out (items, None) blocksize)) = out @ ?B" by (rule patch)
  next
    assume nc: "\<forall>i < length sigs. \<forall>j < length sigs.
              fst (sigs ! i) = fst (sigs ! j) \<longrightarrow> snd (sigs ! i) = snd (sigs ! j)"
    show "e = None" by (rule refs [OF nc, THEN conjunct1])
    show "list_all is_ref items" by (rule refs [OF nc, THEN conjunct2])
  qed
qed

theorem identical_candidate_round_trip_witness:
  "inj_on (id :: byte list \<Rightarrow> byte list) (segments [1, 2, 3] 2) \<and> (0 :: nat) < 2
   \<and> rsyncdelta id 9 \<lparr>contents = [1, 2, 3], pos = 0, closed = False\<rparr>
        (fst (blockchecksums id \<lparr>contents = [1, 2, 3], pos = 0, closed = False\<rparr> 2)) 2 4096
      = Some ([BlockRef 0, BlockRef 1], None)
   \<and> fst (snd (patchstream2 \<lparr>contents = [1, 2, 3], pos = 0, closed = False\<rparr> []
        ([BlockRef 0, BlockRef 1], None) 2)) = [] @ [1, 2, 3]"
proof -
  let ?s = "\<lparr>contents = [1, 2, 3 :: byte], pos = 0, closed = False\<rparr>"
  have v: "rsyncdelta id 9 ?s (fst (blockchecksums id ?s 2)) 2 4096
      = Some ([BlockRef 0, BlockRef 1], None)"
    by code_simp
  have i: "inj_on (id :: byte list \<Rightarrow> byte list) (segments (contents ?s) 2)" by simp
  from identical_candidate_round_trip [OF i, of ?s "fst (blockchecksums id ?s 2)" 9 4096 "[]"]
  have "\<exists>items e. rsyncdelta id 9 ?s (fst (blockchecksums id ?s 2)) 2 4096 = Some (items, e)
      \<and> (e = None \<longrightarrow> fst (snd (patchstream2 ?s [] (items, None) 2)) = [] @ contents ?s)"
    by auto
  with v i show ?thesis by auto
qed
end
